theory Spec2Isabelle
  imports Main "HOL-Library.Extended_Nat" "HOL-Library.Product_Lexorder" "HOL-Library.Multiset"
begin

text \<open>
  A shallow embedding of \<open>dijkstra(graph, start, end)\<close> of \<open>python_example_364702.py\<close>, the
  grid shortest-path finder, and the properties of it that the specification states.
\<close>

section \<open>Data model\<close>

text \<open>
  A cell is a \<open>(row, col)\<close> pair of Python integers. The grid is a list of rows of integers
  (\<open>0\<close> traversable, anything else an obstacle). Hop counts start at \<open>0\<close> and only ever grow by
  \<open>+ 1\<close>, so they are natural numbers; an entry of the distance dictionary is either such a
  count or \<open>float('inf')\<close>, which is \<open>\<infinity>\<close> of \<open>enat\<close>.
\<close>

type_synonym cell = "int \<times> int"

text \<open>The exceptions the indexing and dictionary lookups of the function can raise.\<close>

datatype error = IndexError | KeyError

text \<open>The three structures the search loop mutates.\<close>

record state =
  distances :: "cell \<rightharpoonup> enat"
  previous_nodes :: "cell \<rightharpoonup> cell"
  priority_queue :: "(nat \<times> cell) list"

text \<open>
  One pass through the body of the \<open>while\<close> loop either goes round again with a new state or
  leaves the function: by \<open>return\<close>, by an exception, or never (the inner reconstruction loop
  does not come back), which is \<open>Stop None\<close>.
\<close>

datatype outcome = Continue state | Stop "(error + cell list option) option"

section \<open>The operations of \<open>dijkstra\<close>\<close>

text \<open>Python list indexing \<open>xs[i]\<close>: negative indices count from the end, out of range raises.\<close>

definition index :: "'a list \<Rightarrow> int \<Rightarrow> error + 'a" where
  "index xs i =
     (if 0 \<le> i \<and> i < int (length xs) then Inr (xs ! nat i)
      else if i < 0 \<and> - int (length xs) \<le> i then Inr (xs ! nat (int (length xs) + i))
      else Inl IndexError)"

text \<open>
  \<open>heapq\<close> keeps the frontier as a binary heap inside a list. Its contract is all the search
  relies on: \<open>heappush\<close> adds an item, \<open>heappop\<close> removes and returns the smallest one, and
  Python compares the \<open>(distance, (row, col))\<close> tuples lexicographically, which is the order
  of \<open>Product_Lexorder\<close>. The frontier is therefore a list of the entries it holds, in no
  particular order.
\<close>

definition heappush :: "(nat \<times> cell) list \<Rightarrow> nat \<times> cell \<Rightarrow> (nat \<times> cell) list" where
  "heappush heap item = heap @ [item]"

definition heappop :: "(nat \<times> cell) list \<Rightarrow> (nat \<times> cell) \<times> (nat \<times> cell) list" where
  "heappop heap = (let item = Min (set heap) in (item, remove1 item heap))"

text \<open>\<open>{(r, c): float('inf') for r in range(rows) for c in range(cols)}\<close>\<close>

definition init_distances :: "int \<Rightarrow> int \<Rightarrow> cell \<rightharpoonup> enat" where
  "init_distances rows cols = map_of [((r, c), \<infinity>). r \<leftarrow> [0..rows - 1], c \<leftarrow> [0..cols - 1]]"

text \<open>The four moves, in the order of the source: up, down, left, right.\<close>

definition neighbors :: "cell \<Rightarrow> cell list" where
  "neighbors current_node =
     (let (row, col) = current_node
      in [(row - 1, col), (row + 1, col), (row, col - 1), (row, col + 1)])"

text \<open>
  The inner loop \<open>while current_node in previous_nodes\<close>. It runs forever on a cyclic
  predecessor dictionary, so it is a partial function: \<open>None\<close> is "does not return".
\<close>

partial_function (option) reconstruct :: "(cell \<rightharpoonup> cell) \<Rightarrow> cell \<Rightarrow> cell list \<Rightarrow> cell list option" where
  "reconstruct previous current_node path =
     (case previous current_node of
        None \<Rightarrow> Some path
      | Some p \<Rightarrow> reconstruct previous p (path @ [current_node]))"

declare reconstruct.simps [code]

text \<open>The body of \<open>for neighbor_row, neighbor_col in neighbors\<close>, for one neighbor.\<close>

definition relax :: "int list list \<Rightarrow> int \<Rightarrow> int \<Rightarrow> nat \<Rightarrow> cell \<Rightarrow> cell \<Rightarrow> state \<Rightarrow> error + state" where
  "relax graph rows cols current_distance current_node neighbor_node st =
     (let (neighbor_row, neighbor_col) = neighbor_node in
      if 0 \<le> neighbor_row \<and> neighbor_row < rows \<and> 0 \<le> neighbor_col \<and> neighbor_col < cols then
        (case index graph neighbor_row of
           Inl e \<Rightarrow> Inl e
         | Inr graph_row \<Rightarrow>
             (case index graph_row neighbor_col of
                Inl e \<Rightarrow> Inl e
              | Inr v \<Rightarrow>
                  if v = 0 then
                    (let new_distance = current_distance + 1 in
                     case distances st neighbor_node of
                       None \<Rightarrow> Inl KeyError
                     | Some d \<Rightarrow>
                         if enat new_distance < d then
                           Inr (st\<lparr>distances := (distances st)(neighbor_node \<mapsto> enat new_distance),
                                   previous_nodes := (previous_nodes st)(neighbor_node \<mapsto> current_node),
                                   priority_queue := heappush (priority_queue st) (new_distance, neighbor_node)\<rparr>)
                         else Inr st)
                  else Inr st))
      else Inr st)"

text \<open>The \<open>for\<close> loop itself: an exception in one pass ends it.\<close>

fun relax_all :: "int list list \<Rightarrow> int \<Rightarrow> int \<Rightarrow> nat \<Rightarrow> cell \<Rightarrow> cell list \<Rightarrow> state \<Rightarrow> error + state" where
  "relax_all graph rows cols current_distance current_node [] st = Inr st"
| "relax_all graph rows cols current_distance current_node (neighbor_node # rest) st =
     (case relax graph rows cols current_distance current_node neighbor_node st of
        Inl e \<Rightarrow> Inl e
      | Inr st' \<Rightarrow> relax_all graph rows cols current_distance current_node rest st')"

text \<open>The body of \<open>while priority_queue\<close>.\<close>

definition loop_body :: "int list list \<Rightarrow> int \<Rightarrow> int \<Rightarrow> cell \<Rightarrow> cell \<Rightarrow> state \<Rightarrow> outcome" where
  "loop_body graph rows cols start end_node st =
     (let ((current_distance, current_node), heap) = heappop (priority_queue st);
          st1 = st\<lparr>priority_queue := heap\<rparr>
      in case distances st1 current_node of
           None \<Rightarrow> Stop (Some (Inl KeyError))
         | Some d \<Rightarrow>
             if enat current_distance > d then Continue st1
             else if current_node = end_node then
               Stop (map_option (\<lambda>path. Inr (Some (rev (path @ [start]))))
                      (reconstruct (previous_nodes st1) current_node []))
             else
               (case relax_all graph rows cols current_distance current_node
                       (neighbors current_node) st1 of
                  Inl e \<Rightarrow> Stop (Some (Inl e))
                | Inr st2 \<Rightarrow> Continue st2))"


section \<open>The main loop terminates\<close>

text \<open>
  Every push onto the frontier strictly lowers the distance entry of a cell inside the grid:
  either an unvisited cell becomes visited, or a finite entry shrinks. A pass that pushes
  nothing shortens the frontier. So the triple (unvisited cells, sum of the finite entries,
  length of the frontier) falls lexicographically with every pass, from any state whatever.
\<close>

definition cells :: "int \<Rightarrow> int \<Rightarrow> cell set" where
  "cells rows cols = {0..<rows} \<times> {0..<cols}"

definition unvisited :: "int \<Rightarrow> int \<Rightarrow> state \<Rightarrow> nat" where
  "unvisited rows cols st = card {c \<in> cells rows cols. distances st c = Some \<infinity>}"

definition finite_cost :: "enat option \<Rightarrow> nat" where
  "finite_cost x = (case x of Some (enat d) \<Rightarrow> d | _ \<Rightarrow> 0)"

definition total_cost :: "int \<Rightarrow> int \<Rightarrow> state \<Rightarrow> nat" where
  "total_cost rows cols st = (\<Sum>c \<in> cells rows cols. finite_cost (distances st c))"

definition progress :: "(int \<times> int \<times> state) \<Rightarrow> nat \<times> nat \<times> nat" where
  "progress = (\<lambda>(rows, cols, st). (unvisited rows cols st, total_cost rows cols st, length (priority_queue st)))"

lemma finite_cells [simp]: "finite (cells rows cols)"
  by (simp add: cells_def)

lemma relax_cases:
  assumes "relax graph rows cols cd u n st = Inr st'"
  shows "st' = st \<or>
    (\<exists>d graph_row. 0 \<le> fst n \<and> fst n < rows \<and> 0 \<le> snd n \<and> snd n < cols \<and>
        index graph (fst n) = Inr graph_row \<and> index graph_row (snd n) = Inr 0 \<and>
        distances st n = Some d \<and> enat (cd + 1) < d \<and>
        st' = st\<lparr>distances := (distances st)(n \<mapsto> enat (cd + 1)),
                 previous_nodes := (previous_nodes st)(n \<mapsto> u),
                 priority_queue := heappush (priority_queue st) (cd + 1, n)\<rparr>)"
proof (cases n)
  case (Pair r c)
  show ?thesis
  proof (cases "0 \<le> r \<and> r < rows \<and> 0 \<le> c \<and> c < cols")
    case False
    with assms Pair show ?thesis by (simp add: relax_def)
  next
    case inb: True
    show ?thesis
    proof (cases "index graph r")
      case (Inl e)
      with assms Pair inb show ?thesis by (simp add: relax_def)
    next
      case row: (Inr graph_row)
      show ?thesis
      proof (cases "index graph_row c")
        case (Inl e)
        with assms Pair inb row show ?thesis by (simp add: relax_def)
      next
        case v: (Inr v)
        show ?thesis
        proof (cases "v = 0")
          case False
          with assms Pair inb row v show ?thesis by (simp add: relax_def)
        next
          case True
          show ?thesis
          proof (cases "distances st n")
            case None
            with assms Pair inb row v True show ?thesis by (simp add: relax_def)
          next
            case (Some d)
            with assms Pair inb row v True show ?thesis
              by (cases "enat (cd + 1) < d") (simp_all add: relax_def)
          qed
        qed
      qed
    qed
  qed
qed


lemma relax_progress:
  assumes "relax graph rows cols cd u n st = Inr st'"
  shows "st' = st \<or>
    ((unvisited rows cols st', total_cost rows cols st') , (unvisited rows cols st, total_cost rows cols st)) \<in> less_than <*lex*> less_than"
proof (cases "st' = st")
  case True then show ?thesis by simp
next
  case False
  with relax_cases[OF assms] obtain d where
    inb: "0 \<le> fst n" "fst n < rows" "0 \<le> snd n" "snd n < cols"
    and d: "distances st n = Some d" "enat (cd + 1) < d"
    and st': "distances st' = (distances st)(n \<mapsto> enat (cd + 1))"
    by auto
  have nin: "n \<in> cells rows cols" using inb by (cases n) (simp add: cells_def)
  let ?U = "{x \<in> cells rows cols. distances st x = Some \<infinity>}"
  let ?U' = "{x \<in> cells rows cols. distances st' x = Some \<infinity>}"
  show ?thesis
  proof (cases d)
    case (enat k)
    have "?U' = ?U"
      using d enat st' by auto
    then have u: "unvisited rows cols st' = unvisited rows cols st" by (simp add: unvisited_def)
    have a: "total_cost rows cols st = finite_cost (distances st n) + (\<Sum>x \<in> cells rows cols - {n}. finite_cost (distances st x))"
      unfolding total_cost_def using nin by (simp add: sum.remove)
    have b: "total_cost rows cols st' = finite_cost (distances st' n) + (\<Sum>x \<in> cells rows cols - {n}. finite_cost (distances st' x))"
      unfolding total_cost_def using nin by (simp add: sum.remove)
    have c: "(\<Sum>x \<in> cells rows cols - {n}. finite_cost (distances st' x)) = (\<Sum>x \<in> cells rows cols - {n}. finite_cost (distances st x))"
      by (rule sum.cong) (auto simp: st')
    have "total_cost rows cols st' < total_cost rows cols st"
      using a b c d enat by (simp add: st' finite_cost_def)
    with u show ?thesis by simp
  next
    case infinity
    have eq: "?U' = ?U - {n}"
      using d infinity st' by auto
    have mem: "n \<in> ?U" using nin d infinity by simp
    have fin: "finite ?U" by simp
    have "card (?U - {n}) < card ?U"
      using fin mem by (rule card_Diff1_less)
    with eq have "card ?U' < card ?U" by simp
    then show ?thesis by (simp add: unvisited_def)
  qed
qed
lemma relax_all_progress:
  "relax_all graph rows cols cd u ns st = Inr st' \<Longrightarrow>
   st' = st \<or>
    ((unvisited rows cols st', total_cost rows cols st') , (unvisited rows cols st, total_cost rows cols st)) \<in> less_than <*lex*> less_than"
proof (induction ns arbitrary: st)
  case Nil then show ?case by simp
next
  case (Cons n ns)
  then obtain st1 where 1: "relax graph rows cols cd u n st = Inr st1"
    and 2: "relax_all graph rows cols cd u ns st1 = Inr st'"
    by (auto split: sum.splits)
  from relax_progress[OF 1] Cons.IH[OF 2] show ?case
    by (auto)
qed



lemma heappop_eq:
  "heappop heap = (Min (set heap), remove1 (Min (set heap)) heap)"
  by (simp add: heappop_def Let_def)

lemma loop_body_cases:
  assumes "loop_body graph rows cols start end_node st = Continue st'"
    and "heappop (priority_queue st) = ((cd, u), heap)"
  shows "\<exists>d. distances st u = Some d \<and>
     ((d < enat cd \<and> st' = st\<lparr>priority_queue := heap\<rparr>) \<or>
      (enat cd \<le> d \<and> u \<noteq> end_node \<and>
       relax_all graph rows cols cd u (neighbors u) (st\<lparr>priority_queue := heap\<rparr>) = Inr st'))"
proof (cases "distances st u")
  case None
  with assms show ?thesis by (simp add: loop_body_def)
next
  case (Some d)
  show ?thesis
  proof (cases "d < enat cd")
    case True
    with assms Some show ?thesis by (simp add: loop_body_def)
  next
    case False
    with assms Some show ?thesis
      by (cases "u = end_node") (simp_all add: loop_body_def split: sum.splits)
  qed
qed

lemma loop_body_progress:
  assumes "priority_queue st \<noteq> []" "loop_body graph rows cols start end_node st = Continue st'"
  shows "(progress (rows, cols, st'), progress (rows, cols, st)) \<in> less_than <*lex*> less_than <*lex*> less_than"
proof -
  obtain cd u heap where pop: "heappop (priority_queue st) = ((cd, u), heap)"
    by (metis prod.exhaust)
  have "Min (set (priority_queue st)) \<in> set (priority_queue st)" using assms(1) by simp
  then have "length (remove1 (Min (set (priority_queue st))) (priority_queue st)) < length (priority_queue st)"
    using assms(1) by (simp add: length_remove1)
  with pop have len: "length heap < length (priority_queue st)"
    by (auto simp: heappop_eq)
  let ?st1 = "st\<lparr>priority_queue := heap\<rparr>"
  have m: "unvisited rows cols ?st1 = unvisited rows cols st" "total_cost rows cols ?st1 = total_cost rows cols st"
    by (simp_all add: unvisited_def total_cost_def)
  from loop_body_cases[OF assms(2) pop] consider "st' = ?st1"
    | "relax_all graph rows cols cd u (neighbors u) ?st1 = Inr st'"
    by blast
  then show ?thesis
  proof cases
    case 1 then show ?thesis using len m by (simp add: progress_def)
  next
    case 2
    from relax_all_progress[OF 2] show ?thesis using len m by (auto simp: progress_def)
  qed
qed

text \<open>The \<open>while priority_queue\<close> loop, and \<open>return None\<close> after it.\<close>

function search :: "int list list \<Rightarrow> int \<Rightarrow> int \<Rightarrow> cell \<Rightarrow> cell \<Rightarrow> state \<Rightarrow> (error + cell list option) option" where
  "search graph rows cols start end_node st =
     (if priority_queue st = [] then Some (Inr None)
      else (case loop_body graph rows cols start end_node st of
              Stop r \<Rightarrow> r
            | Continue st' \<Rightarrow> search graph rows cols start end_node st'))"
  by pat_completeness auto
termination
proof (relation "inv_image (less_than <*lex*> less_than <*lex*> less_than) (\<lambda>(graph, rows, cols, start, end_node, st). progress (rows, cols, st))")
  show "wf (inv_image (less_than <*lex*> less_than <*lex*> less_than) (\<lambda>(graph, rows, cols, start, end_node, st). progress (rows, cols, st)))"
    by (intro wf_inv_image wf_lex_prod wf_less_than)
next
  fix graph rows cols start end_node st st'
  assume "priority_queue st \<noteq> []" "loop_body graph rows cols start end_node st = Continue st'"
  from loop_body_progress[OF this]
  show "((graph, rows, cols, start, end_node, st'), (graph, rows, cols, start, end_node, st)) \<in> inv_image (less_than <*lex*> less_than <*lex*> less_than) (\<lambda>(graph, rows, cols, start, end_node, st). progress (rows, cols, st))"
    by simp
qed

declare search.simps [simp del]

text \<open>
  The function itself. \<open>len(graph[0])\<close> raises on an empty grid; \<open>distances[start] = 0\<close> is an
  assignment, which adds the key when \<open>start\<close> lies outside the grid.
\<close>

definition dijkstra :: "int list list \<Rightarrow> cell \<Rightarrow> cell \<Rightarrow> (error + cell list option) option" where
  "dijkstra graph start end_node =
     (case index graph 0 of
        Inl e \<Rightarrow> Some (Inl e)
      | Inr graph_row0 \<Rightarrow>
          (let rows = int (length graph); cols = int (length graph_row0);
               distances = (init_distances rows cols)(start \<mapsto> 0);
               previous_nodes = Map.empty;
               priority_queue = [(0, start)]
           in search graph rows cols start end_node
                \<lparr>distances = distances, previous_nodes = previous_nodes, priority_queue = priority_queue\<rparr>))"

section \<open>The notions of the specification\<close>

definition in_bounds :: "int list list \<Rightarrow> cell \<Rightarrow> bool" where
  "in_bounds graph cell =
     (0 \<le> fst cell \<and> fst cell < int (length graph) \<and>
      0 \<le> snd cell \<and> snd cell < int (length (hd graph)))"

definition rectangular :: "int list list \<Rightarrow> bool" where
  "rectangular graph = (graph \<noteq> [] \<and> (\<forall>row \<in> set graph. length row = length (hd graph)))"

definition traversable :: "int list list \<Rightarrow> cell \<Rightarrow> bool" where
  "traversable graph cell =
     (in_bounds graph cell \<and> graph ! nat (fst cell) ! nat (snd cell) = 0)"

definition adjacent :: "cell \<Rightarrow> cell \<Rightarrow> bool" where
  "adjacent a b = (\<bar>fst a - fst b\<bar> + \<bar>snd a - snd b\<bar> = 1)"

definition is_path :: "int list list \<Rightarrow> cell \<Rightarrow> cell \<Rightarrow> cell list \<Rightarrow> bool" where
  "is_path graph start goal path =
     (path \<noteq> [] \<and> hd path = start \<and> last path = goal \<and>
      successively adjacent path \<and> list_all (traversable graph) path)"

definition hops :: "cell list \<Rightarrow> nat" where
  "hops path = length path - 1"

definition manhattan :: "cell \<Rightarrow> cell \<Rightarrow> int" where
  "manhattan a b = \<bar>fst a - fst b\<bar> + \<bar>snd a - snd b\<bar>"

definition no_obstacles :: "int list list \<Rightarrow> bool" where
  "no_obstacles graph = (\<forall>row \<in> set graph. \<forall>v \<in> set row. v = 0)"

definition short_row :: "int list list \<Rightarrow> bool" where
  "short_row graph = (\<exists>row \<in> set graph. length row < length (hd graph))"

definition add_obstacle :: "int list list \<Rightarrow> cell \<Rightarrow> int list list" where
  "add_obstacle graph cell =
     graph[nat (fst cell) := (graph ! nat (fst cell))[nat (snd cell) := 1]]"

definition initial_state :: "int list list \<Rightarrow> cell \<Rightarrow> state" where
  "initial_state graph start =
     \<lparr>distances = (init_distances (int (length graph)) (int (length (hd graph))))(start \<mapsto> 0),
      previous_nodes = Map.empty,
      priority_queue = [(0, start)]\<rparr>"

section \<open>What the search maintains\<close>

text \<open>
  \<open>reach graph start k c\<close>: the cell \<open>c\<close> is \<open>k\<close> moves away from \<open>start\<close> along cells that are
  traversable (the start itself is never tested, as in the code).
\<close>

inductive reach :: "int list list \<Rightarrow> cell \<Rightarrow> nat \<Rightarrow> cell \<Rightarrow> bool"
  for graph :: "int list list" and start :: cell where
  reach_start: "reach graph start 0 start"
| reach_step: "reach graph start k u \<Longrightarrow> adjacent u v \<Longrightarrow> traversable graph v \<Longrightarrow>
     reach graph start (Suc k) v"

text \<open>The assignment made by a successful relaxation of \<open>n\<close> from \<open>u\<close>.\<close>

definition update_neighbor :: "nat \<Rightarrow> cell \<Rightarrow> cell \<Rightarrow> state \<Rightarrow> state" where
  "update_neighbor cd u n st =
     st\<lparr>distances := (distances st)(n \<mapsto> enat (cd + 1)),
        previous_nodes := (previous_nodes st)(n \<mapsto> u),
        priority_queue := heappush (priority_queue st) (cd + 1, n)\<rparr>"

text \<open>
  The parts of the loop invariant. The start keeps distance \<open>0\<close>; every cell of the grid
  has an entry; a finite entry or a frontier key \<open>d\<close> for a cell means the cell is reached in
  \<open>d\<close> moves; a frontier key is never below the entry of its cell; a predecessor is an
  adjacent cell with a strictly smaller entry; every visited cell but the start has a
  predecessor; a visited cell is still on the frontier with its current entry (or is the
  cell being expanded, the set \<open>X\<close>), or all its traversable neighbours are within one move
  of it; and the goal, once visited, stays on the frontier.
\<close>

definition start_zero :: "cell \<Rightarrow> state \<Rightarrow> bool" where
  "start_zero start st = (distances st start = Some 0)"

definition known_cells :: "int list list \<Rightarrow> state \<Rightarrow> bool" where
  "known_cells graph st = (\<forall>c. in_bounds graph c \<longrightarrow> distances st c \<noteq> None)"

definition dist_reached :: "int list list \<Rightarrow> cell \<Rightarrow> state \<Rightarrow> bool" where
  "dist_reached graph start st =
     (\<forall>c d. distances st c = Some (enat d) \<longrightarrow> reach graph start d c)"

definition queue_reached :: "int list list \<Rightarrow> cell \<Rightarrow> state \<Rightarrow> bool" where
  "queue_reached graph start st =
     (\<forall>d c. (d, c) \<in> set (priority_queue st) \<longrightarrow> reach graph start d c)"

definition queue_bound :: "state \<Rightarrow> bool" where
  "queue_bound st =
     (\<forall>d c. (d, c) \<in> set (priority_queue st) \<longrightarrow>
        (\<exists>d'. distances st c = Some (enat d') \<and> d' \<le> d))"

definition pred_ok :: "int list list \<Rightarrow> state \<Rightarrow> bool" where
  "pred_ok graph st =
     (\<forall>c p. previous_nodes st c = Some p \<longrightarrow>
        (\<exists>d dp. distances st c = Some (enat d) \<and> distances st p = Some (enat dp) \<and> dp < d \<and>
           adjacent p c \<and> traversable graph c))"

definition pred_total :: "cell \<Rightarrow> state \<Rightarrow> bool" where
  "pred_total start st =
     (\<forall>c d. distances st c = Some (enat d) \<longrightarrow> c \<noteq> start \<longrightarrow> previous_nodes st c \<noteq> None)"

definition expanded :: "int list list \<Rightarrow> state \<Rightarrow> cell \<Rightarrow> nat \<Rightarrow> bool" where
  "expanded graph st c d =
     (\<forall>n. adjacent c n \<longrightarrow> traversable graph n \<longrightarrow>
        (\<exists>d'. distances st n = Some (enat d') \<and> d' \<le> d + 1))"

definition closed :: "int list list \<Rightarrow> (nat \<times> cell) set \<Rightarrow> state \<Rightarrow> bool" where
  "closed graph X st =
     (\<forall>c d. distances st c = Some (enat d) \<longrightarrow>
        (d, c) \<in> set (priority_queue st) \<or> (d, c) \<in> X \<or> expanded graph st c d)"

definition goal_pending :: "cell \<Rightarrow> state \<Rightarrow> bool" where
  "goal_pending end_node st =
     (\<forall>d. distances st end_node = Some (enat d) \<longrightarrow> (d, end_node) \<in> set (priority_queue st))"

definition invariant :: "int list list \<Rightarrow> cell \<Rightarrow> cell \<Rightarrow> (nat \<times> cell) set \<Rightarrow> state \<Rightarrow> bool" where
  "invariant graph start end_node X st =
     (start_zero start st \<and> known_cells graph st \<and> dist_reached graph start st \<and>
      queue_reached graph start st \<and> queue_bound st \<and> pred_ok graph st \<and>
      pred_total start st \<and> closed graph X st \<and> goal_pending end_node st)"

definition no_increase :: "state \<Rightarrow> state \<Rightarrow> bool" where
  "no_increase st st' =
     (\<forall>c x. distances st c = Some x \<longrightarrow> (\<exists>y. distances st' c = Some y \<and> y \<le> x))"

definition dist_le :: "state \<Rightarrow> cell \<Rightarrow> nat \<Rightarrow> bool" where
  "dist_le st c k = (\<exists>d. distances st c = Some (enat d) \<and> d \<le> k)"

definition walk :: "int list list \<Rightarrow> cell \<Rightarrow> cell \<Rightarrow> cell list \<Rightarrow> bool" where
  "walk graph start goal path =
     (path \<noteq> [] \<and> hd path = start \<and> last path = goal \<and>
      successively adjacent path \<and> list_all (traversable graph) (tl path))"

text \<open>
  What keeps the dictionary lookups defined on any grid, rectangular or not: every cell of
  the \<open>rows\<close> by \<open>cols\<close> range and every cell on the frontier has a distance entry.
\<close>

definition keys_defined :: "int \<Rightarrow> int \<Rightarrow> state \<Rightarrow> bool" where
  "keys_defined rows cols st =
     ((\<forall>c. c \<in> cells rows cols \<longrightarrow> distances st c \<noteq> None) \<and>
      (\<forall>d c. (d, c) \<in> set (priority_queue st) \<longrightarrow> distances st c \<noteq> None))"

text \<open>
  The state at the head of the \<open>while\<close> loop after \<open>n\<close> complete passes; \<open>None\<close> when the
  loop has ended or the function has left before that.
\<close>

fun iterations :: "int list list \<Rightarrow> int \<Rightarrow> int \<Rightarrow> cell \<Rightarrow> cell \<Rightarrow> state \<Rightarrow> nat \<Rightarrow> state option" where
  "iterations graph rows cols start end_node st 0 = Some st"
| "iterations graph rows cols start end_node st (Suc n) =
     (case iterations graph rows cols start end_node st n of
        None \<Rightarrow> None
      | Some s \<Rightarrow>
          if priority_queue s = [] then None
          else (case loop_body graph rows cols start end_node s of
                  Continue s' \<Rightarrow> Some s'
                | Stop r \<Rightarrow> None))"



section \<open>First consequences of the definitions\<close>

lemma dijkstra_nonempty:
  "graph \<noteq> [] \<Longrightarrow> dijkstra graph start end_node =
     search graph (int (length graph)) (int (length (hd graph))) start end_node (initial_state graph start)"
  by (cases graph) (simp_all add: dijkstra_def index_def initial_state_def Let_def)

lemma dijkstra_empty: "dijkstra [] start end_node = Some (Inl IndexError)"
  by (simp add: dijkstra_def index_def)

lemma heappop_single: "heappop [x] = (x, [])"
  by (simp add: heappop_def)

lemma reconstruct_no_predecessor: "previous c = None \<Longrightarrow> reconstruct previous c path = Some path"
  by (subst reconstruct.simps) simp

lemma dijkstra_start_is_goal:
  assumes "graph \<noteq> []"
  shows "dijkstra graph s s = Some (Inr (Some [s]))"
proof -
  have "loop_body graph (int (length graph)) (int (length (hd graph))) s s (initial_state graph s)
        = Stop (Some (Inr (Some [s])))"
    by (simp add: loop_body_def initial_state_def heappop_single reconstruct_no_predecessor zero_enat_def)
  then show ?thesis
    using assms by (subst dijkstra_nonempty, simp) (subst search.simps, simp add: initial_state_def)
qed

lemma neighbors_adjacent: "n \<in> set (neighbors u) \<longleftrightarrow> adjacent u n"
  by (cases u; cases n) (auto simp: neighbors_def adjacent_def)

lemma init_distances_apply:
  "init_distances rows cols c = (if c \<in> cells rows cols then Some \<infinity> else None)"
proof -
  let ?xs = "[((r, c), \<infinity>::enat). r \<leftarrow> [0..rows - 1], c \<leftarrow> [0..cols - 1]]"
  have fst: "fst ` set ?xs = cells rows cols"
    by (auto simp: cells_def image_iff)
  show ?thesis
  proof (cases "c \<in> cells rows cols")
    case True
    then have "c \<in> fst ` set ?xs" using fst by simp
    then obtain v where v: "map_of ?xs c = Some v"
      by (metis (no_types, lifting) domD dom_map_of_conv_image_fst)
    then have "(c, v) \<in> set ?xs" by (rule map_of_SomeD)
    then have "v = \<infinity>" by auto
    with v True show ?thesis by (simp add: init_distances_def)
  next
    case False
    then have "c \<notin> fst ` set ?xs" using fst by simp
    then have "map_of ?xs c = None" by (simp add: map_of_eq_None_iff)
    with False show ?thesis by (simp add: init_distances_def)
  qed
qed

lemma index_in_range: "0 \<le> i \<Longrightarrow> i < int (length xs) \<Longrightarrow> index xs i = Inr (xs ! nat i)"
  by (simp add: index_def)

lemma cells_in_bounds: "c \<in> cells (int (length graph)) (int (length (hd graph))) \<longleftrightarrow> in_bounds graph c"
  by (cases c) (auto simp: cells_def in_bounds_def)

lemma relax_out_of_bounds:
  "\<not> (0 \<le> fst n \<and> fst n < rows \<and> 0 \<le> snd n \<and> snd n < cols) \<Longrightarrow>
   relax graph rows cols cd u n st = Inr st"
  by (cases n) (simp add: relax_def, blast)

lemma relax_in_bounds:
  "0 \<le> fst n \<Longrightarrow> fst n < rows \<Longrightarrow> 0 \<le> snd n \<Longrightarrow> snd n < cols \<Longrightarrow>
   index graph (fst n) = Inr graph_row \<Longrightarrow> index graph_row (snd n) = Inr v \<Longrightarrow>
   relax graph rows cols cd u n st =
     (if v = 0 then
        (case distances st n of
           None \<Rightarrow> Inl KeyError
         | Some d \<Rightarrow>
             if enat (cd + 1) < d then
               Inr (st\<lparr>distances := (distances st)(n \<mapsto> enat (cd + 1)),
                       previous_nodes := (previous_nodes st)(n \<mapsto> u),
                       priority_queue := heappush (priority_queue st) (cd + 1, n)\<rparr>)
             else Inr st)
      else Inr st)"
  by (cases n) (simp add: relax_def split: option.split)

lemma relax_rectangular:
  assumes "rectangular graph"
  shows "relax graph (int (length graph)) (int (length (hd graph))) cd u n st =
     (if traversable graph n then
        (case distances st n of
           None \<Rightarrow> Inl KeyError
         | Some d \<Rightarrow>
             if enat (cd + 1) < d then
               Inr (st\<lparr>distances := (distances st)(n \<mapsto> enat (cd + 1)),
                       previous_nodes := (previous_nodes st)(n \<mapsto> u),
                       priority_queue := heappush (priority_queue st) (cd + 1, n)\<rparr>)
             else Inr st)
      else Inr st)"
proof (cases "in_bounds graph n")
  case False
  then have "relax graph (int (length graph)) (int (length (hd graph))) cd u n st = Inr st"
    by (intro relax_out_of_bounds) (simp add: in_bounds_def)
  moreover have "\<not> traversable graph n" using False by (simp add: traversable_def)
  ultimately show ?thesis by simp
next
  case True
  then have r: "0 \<le> fst n" "fst n < int (length graph)"
    and c: "0 \<le> snd n" "snd n < int (length (hd graph))"
    by (simp_all add: in_bounds_def)
  have "graph ! nat (fst n) \<in> set graph" using r by simp
  then have len: "length (graph ! nat (fst n)) = length (hd graph)"
    using assms unfolding rectangular_def by blast
  have i1: "index graph (fst n) = Inr (graph ! nat (fst n))" using r by (rule index_in_range)
  have i2: "index (graph ! nat (fst n)) (snd n) = Inr (graph ! nat (fst n) ! nat (snd n))"
    using c len by (simp add: index_in_range)
  have t: "traversable graph n \<longleftrightarrow> graph ! nat (fst n) ! nat (snd n) = 0"
    using True by (simp add: traversable_def)
  show ?thesis
    unfolding relax_in_bounds[OF r c i1 i2] t by (rule refl)
qed

section \<open>Start and goal identical\<close>

text \<open>
  C5. On a non-empty rectangular grid, with \<open>s\<close> an in-bounds traversable cell,
  \<open>dijkstra(grid, s, s)\<close> returns exactly the single-cell path \<open>[s]\<close>.
\<close>

theorem start_equals_goal_single_cell:
  assumes "rectangular graph" and "traversable graph s"
  shows "dijkstra graph s s = Some (Inr (Some [s]))"
proof -
  from assms(1) have "graph \<noteq> []" by (simp add: rectangular_def)
  then show ?thesis by (rule dijkstra_start_is_goal)
qed

theorem start_equals_goal_single_cell_witness:
  "rectangular [[0, 0], [1, 0]] \<and> traversable [[0, 0], [1, 0]] (0, 1) \<and>
   dijkstra [[0, 0], [1, 0]] (0, 1) (0, 1) = Some (Inr (Some [(0, 1)]))"
proof -
  have r: "rectangular [[0, 0], [1, 0]]" by (simp add: rectangular_def)
  have t: "traversable [[0, 0], [1, 0]] (0, 1)" by (simp add: traversable_def in_bounds_def)
  show ?thesis using r t start_equals_goal_single_cell [OF r t] by simp
qed

section \<open>The invariant is kept by every assignment\<close>

lemma update_neighbor_simps [simp]:
  "distances (update_neighbor cd u n st) = (distances st)(n \<mapsto> enat (cd + 1))"
  "previous_nodes (update_neighbor cd u n st) = (previous_nodes st)(n \<mapsto> u)"
  "set (priority_queue (update_neighbor cd u n st)) = insert (cd + 1, n) (set (priority_queue st))"
  by (simp_all add: update_neighbor_def heappush_def)

lemma adjacent_neq: "adjacent u n \<Longrightarrow> u \<noteq> n"
  by (auto simp: adjacent_def)

lemma no_increase_refl: "no_increase st st"
  by (simp add: no_increase_def)

lemma no_increase_trans: "no_increase a b \<Longrightarrow> no_increase b c \<Longrightarrow> no_increase a c"
  unfolding no_increase_def by (meson order_trans)

lemma no_increase_update:
  "distances st n = Some x \<Longrightarrow> enat (cd + 1) < x \<Longrightarrow> no_increase st (update_neighbor cd u n st)"
  by (auto simp: no_increase_def)

lemma start_zero_update:
  assumes "start_zero start st" "distances st n = Some x" "enat (cd + 1) < x"
  shows "start_zero start (update_neighbor cd u n st)"
proof -
  have "n \<noteq> start" using assms by (auto simp: start_zero_def zero_enat_def)
  then show ?thesis using assms(1) by (simp add: start_zero_def)
qed

lemma known_cells_update:
  "known_cells graph st \<Longrightarrow> known_cells graph (update_neighbor cd u n st)"
  by (simp add: known_cells_def)

lemma dist_reached_update:
  assumes "dist_reached graph start st" "reach graph start cd u" "adjacent u n" "traversable graph n"
  shows "dist_reached graph start (update_neighbor cd u n st)"
proof -
  have "reach graph start (Suc cd) n" using assms(2-4) by (rule reach_step)
  then show ?thesis using assms(1) by (simp add: dist_reached_def)
qed

lemma queue_reached_update:
  assumes "queue_reached graph start st" "reach graph start cd u" "adjacent u n" "traversable graph n"
  shows "queue_reached graph start (update_neighbor cd u n st)"
proof -
  have "reach graph start (Suc cd) n" using assms(2-4) by (rule reach_step)
  then show ?thesis using assms(1) by (auto simp: queue_reached_def)
qed

lemma queue_bound_update:
  assumes "queue_bound st" "distances st n = Some x" "enat (cd + 1) < x"
  shows "queue_bound (update_neighbor cd u n st)"
  unfolding queue_bound_def
proof (intro allI impI)
  fix d c
  assume "(d, c) \<in> set (priority_queue (update_neighbor cd u n st))"
  then consider "d = cd + 1" "c = n" | "(d, c) \<in> set (priority_queue st)" by auto
  then show "\<exists>d'. distances (update_neighbor cd u n st) c = Some (enat d') \<and> d' \<le> d"
  proof cases
    case 1 then show ?thesis by simp
  next
    case 2
    then obtain d' where d': "distances st c = Some (enat d')" "d' \<le> d"
      using assms(1) unfolding queue_bound_def by blast
    show ?thesis
    proof (cases "c = n")
      case True
      with d' assms(2,3) have "cd + 1 < d'" by simp
      with True d' show ?thesis by simp
    next
      case False with d' show ?thesis by simp
    qed
  qed
qed

lemma pred_ok_update:
  assumes "pred_ok graph st" "distances st n = Some x" "enat (cd + 1) < x"
    and "distances st u = Some (enat du)" "du \<le> cd" "adjacent u n" "traversable graph n"
  shows "pred_ok graph (update_neighbor cd u n st)"
  unfolding pred_ok_def
proof (intro allI impI)
  fix c p
  let ?st' = "update_neighbor cd u n st"
  assume a: "previous_nodes ?st' c = Some p"
  have un: "u \<noteq> n" using assms(6) by (rule adjacent_neq)
  show "\<exists>d dp. distances ?st' c = Some (enat d) \<and> distances ?st' p = Some (enat dp) \<and> dp < d \<and>
           adjacent p c \<and> traversable graph c"
  proof (cases "c = n")
    case True
    with a have "p = u" by simp
    with True un assms(4-7) show ?thesis by simp
  next
    case False
    with a have "previous_nodes st c = Some p" by simp
    then obtain d dp where o: "distances st c = Some (enat d)" "distances st p = Some (enat dp)"
      "dp < d" "adjacent p c" "traversable graph c"
      using assms(1) unfolding pred_ok_def by blast
    show ?thesis
    proof (cases "p = n")
      case True
      with o assms(2,3) have "cd + 1 < dp" by simp
      with True False o show ?thesis by simp
    next
      case pn: False
      with False o show ?thesis by simp
    qed
  qed
qed

lemma pred_total_update:
  "pred_total start st \<Longrightarrow> pred_total start (update_neighbor cd u n st)"
  by (simp add: pred_total_def)

lemma expanded_update:
  assumes "expanded graph st c d" "distances st n = Some x" "enat (cd + 1) < x"
  shows "expanded graph (update_neighbor cd u n st) c d"
  unfolding expanded_def
proof (intro allI impI)
  fix m assume "adjacent c m" "traversable graph m"
  then obtain d' where d': "distances st m = Some (enat d')" "d' \<le> d + 1"
    using assms(1) unfolding expanded_def by blast
  show "\<exists>d'. distances (update_neighbor cd u n st) m = Some (enat d') \<and> d' \<le> d + 1"
  proof (cases "m = n")
    case True
    with d' assms(2,3) have "cd + 1 < d'" by simp
    with True d' show ?thesis by simp
  next
    case False with d' show ?thesis by simp
  qed
qed

lemma closed_update:
  assumes "closed graph X st" "distances st n = Some x" "enat (cd + 1) < x"
  shows "closed graph X (update_neighbor cd u n st)"
  unfolding closed_def
proof (intro allI impI)
  fix c d
  let ?st' = "update_neighbor cd u n st"
  assume a: "distances ?st' c = Some (enat d)"
  show "(d, c) \<in> set (priority_queue ?st') \<or> (d, c) \<in> X \<or> expanded graph ?st' c d"
  proof (cases "c = n")
    case True
    with a show ?thesis by simp
  next
    case False
    with a have "distances st c = Some (enat d)" by simp
    then consider "(d, c) \<in> set (priority_queue st)" | "(d, c) \<in> X" | "expanded graph st c d"
      using assms(1) unfolding closed_def by blast
    then show ?thesis
    proof cases
      case 1 then show ?thesis by simp
    next
      case 2 then show ?thesis by simp
    next
      case 3
      then have "expanded graph ?st' c d" using assms(2,3) by (rule expanded_update)
      then show ?thesis by simp
    qed
  qed
qed

lemma goal_pending_update:
  "goal_pending end_node st \<Longrightarrow> goal_pending end_node (update_neighbor cd u n st)"
  by (simp add: goal_pending_def)

lemma invariant_update:
  assumes "invariant graph start end_node X st"
    and "distances st n = Some x" "enat (cd + 1) < x"
    and "reach graph start cd u" "distances st u = Some (enat du)" "du \<le> cd"
    and "adjacent u n" "traversable graph n"
  shows "invariant graph start end_node X (update_neighbor cd u n st)"
  using assms unfolding invariant_def
  by (intro conjI start_zero_update known_cells_update dist_reached_update queue_reached_update
        queue_bound_update pred_ok_update pred_total_update closed_update goal_pending_update)
     (elim conjE, assumption)+

lemma dist_le_no_increase:
  assumes "dist_le st c k" "no_increase st st'"
  shows "dist_le st' c k"
proof -
  from assms(1) obtain d where d: "distances st c = Some (enat d)" "d \<le> k"
    unfolding dist_le_def by blast
  with assms(2) obtain y where y: "distances st' c = Some y" "y \<le> enat d"
    unfolding no_increase_def by blast
  from y(2) obtain e where "y = enat e" "e \<le> d" by (cases y) auto
  with y d show ?thesis unfolding dist_le_def by auto
qed

lemma expanded_iff: "expanded graph st c d \<longleftrightarrow>
    (\<forall>n. adjacent c n \<longrightarrow> traversable graph n \<longrightarrow> dist_le st n (d + 1))"
  by (simp add: expanded_def dist_le_def)

lemma queue_bound_iff: "queue_bound st \<longleftrightarrow>
    (\<forall>d c. (d, c) \<in> set (priority_queue st) \<longrightarrow> dist_le st c d)"
  by (simp add: queue_bound_def dist_le_def)

subsection \<open>One relaxation, and the whole \<open>for\<close> loop\<close>

lemma relax_step:
  assumes rect: "rectangular graph"
    and inv: "invariant graph start end_node X st"
    and u: "reach graph start cd u" "dist_le st u cd" "adjacent u n"
  shows "\<exists>st'. relax graph (int (length graph)) (int (length (hd graph))) cd u n st = Inr st' \<and>
           invariant graph start end_node X st' \<and> no_increase st st' \<and>
           (traversable graph n \<longrightarrow> dist_le st' n (cd + 1))"
proof (cases "traversable graph n")
  case False
  then show ?thesis using inv by (simp add: relax_rectangular[OF rect] no_increase_refl)
next
  case True
  then have "in_bounds graph n" by (simp add: traversable_def)
  moreover have "known_cells graph st" using inv by (simp add: invariant_def)
  ultimately obtain x where x: "distances st n = Some x"
    unfolding known_cells_def by blast
  from u(2) obtain du where du: "distances st u = Some (enat du)" "du \<le> cd"
    unfolding dist_le_def by blast
  show ?thesis
  proof (cases "enat (cd + 1) < x")
    case less: True
    have eq: "relax graph (int (length graph)) (int (length (hd graph))) cd u n st
              = Inr (update_neighbor cd u n st)"
      using True x less by (simp add: relax_rectangular[OF rect] update_neighbor_def)
    have "invariant graph start end_node X (update_neighbor cd u n st)"
      using inv x less u(1) du u(3) True by (rule invariant_update)
    moreover have "no_increase st (update_neighbor cd u n st)"
      using x less by (rule no_increase_update)
    moreover have "dist_le (update_neighbor cd u n st) n (cd + 1)"
      by (simp add: dist_le_def)
    ultimately show ?thesis using eq by blast
  next
    case False
    then have "x \<le> enat (cd + 1)" by simp
    then obtain e where "x = enat e" "e \<le> cd + 1" by (cases x) auto
    then have "dist_le st n (cd + 1)" using x by (auto simp: dist_le_def)
    moreover have "relax graph (int (length graph)) (int (length (hd graph))) cd u n st = Inr st"
      using True x False by (simp add: relax_rectangular[OF rect])
    ultimately show ?thesis using inv by (simp add: no_increase_refl)
  qed
qed

lemma relax_all_steps:
  assumes rect: "rectangular graph"
    and reach: "reach graph start cd u"
  shows "invariant graph start end_node X st \<Longrightarrow> dist_le st u cd \<Longrightarrow>
         \<forall>n \<in> set ns. adjacent u n \<Longrightarrow>
         \<exists>st'. relax_all graph (int (length graph)) (int (length (hd graph))) cd u ns st = Inr st' \<and>
           invariant graph start end_node X st' \<and> no_increase st st' \<and>
           (\<forall>n \<in> set ns. traversable graph n \<longrightarrow> dist_le st' n (cd + 1))"
proof (induction ns arbitrary: st)
  case Nil
  then show ?case by (simp add: no_increase_refl)
next
  case (Cons n ns)
  from Cons.prems(3) have adj: "adjacent u n" and rest: "\<forall>m \<in> set ns. adjacent u m" by simp_all
  from relax_step[OF rect Cons.prems(1) reach Cons.prems(2) adj]
  obtain st1 where st1: "relax graph (int (length graph)) (int (length (hd graph))) cd u n st = Inr st1"
    "invariant graph start end_node X st1" "no_increase st st1"
    "traversable graph n \<longrightarrow> dist_le st1 n (cd + 1)" by blast
  have u1: "dist_le st1 u cd" using Cons.prems(2) st1(3) by (rule dist_le_no_increase)
  from Cons.IH[OF st1(2) u1 rest]
  obtain st' where st': "relax_all graph (int (length graph)) (int (length (hd graph))) cd u ns st1 = Inr st'"
    "invariant graph start end_node X st'" "no_increase st1 st'"
    "\<forall>m \<in> set ns. traversable graph m \<longrightarrow> dist_le st' m (cd + 1)" by blast
  have a: "relax_all graph (int (length graph)) (int (length (hd graph))) cd u (n # ns) st = Inr st'"
    using st1(1) st'(1) by simp
  have b: "no_increase st st'" using st1(3) st'(3) by (rule no_increase_trans)
  have c: "traversable graph n \<longrightarrow> dist_le st' n (cd + 1)"
    using st1(4) st'(3) by (blast intro: dist_le_no_increase)
  show ?case using a b c st'(2,4) by simp
qed

subsection \<open>Taking the least entry off the frontier\<close>

lemma heappop_least:
  assumes "heap \<noteq> []" "heappop heap = ((cd, u), rest)"
  shows "(cd, u) \<in> set heap" and "\<And>d c. (d, c) \<in> set heap \<Longrightarrow> cd \<le> d"
    and "\<And>x. x \<in> set heap \<Longrightarrow> x \<noteq> (cd, u) \<Longrightarrow> x \<in> set rest"
    and "set rest \<subseteq> set heap"
proof -
  from assms(2) have m: "(cd, u) = Min (set heap)" and r: "rest = remove1 (cd, u) heap"
    by (auto simp: heappop_eq)
  show in_heap: "(cd, u) \<in> set heap" using assms(1) m by simp
  show "\<And>d c. (d, c) \<in> set heap \<Longrightarrow> cd \<le> d"
  proof -
    fix d c assume "(d, c) \<in> set heap"
    then have "Min (set heap) \<le> (d, c)" by simp
    with m have "(cd, u) \<le> (d, c)" by simp
    then show "cd \<le> d" by (auto simp: less_eq_prod_def)
  qed
  show "\<And>x. x \<in> set heap \<Longrightarrow> x \<noteq> (cd, u) \<Longrightarrow> x \<in> set rest"
    using r by simp
  show "set rest \<subseteq> set heap" using r by (simp add: set_remove1_subset)
qed

lemma loop_body_unfold:
  assumes "heappop (priority_queue st) = ((cd, u), heap)"
  shows "loop_body graph rows cols start end_node st =
     (case distances st u of
        None \<Rightarrow> Stop (Some (Inl KeyError))
      | Some d \<Rightarrow>
          if enat cd > d then Continue (st\<lparr>priority_queue := heap\<rparr>)
          else if u = end_node then
            Stop (map_option (\<lambda>path. Inr (Some (rev (path @ [start]))))
                   (reconstruct (previous_nodes st) u []))
          else
            (case relax_all graph rows cols cd u (neighbors u) (st\<lparr>priority_queue := heap\<rparr>) of
               Inl e \<Rightarrow> Stop (Some (Inl e))
             | Inr st2 \<Rightarrow> Continue st2))"
  using assms by (simp add: loop_body_def Let_def split: option.split)

text \<open>Dropping an entry from the frontier: the entry becomes the one exempted cell.\<close>

lemma invariant_pop:
  assumes inv: "invariant graph start end_node {} st"
    and sub: "set heap \<subseteq> set (priority_queue st)"
    and keep: "\<And>x. x \<in> set (priority_queue st) \<Longrightarrow> x \<noteq> (cd, u) \<Longrightarrow> x \<in> set heap"
    and goal: "u = end_node \<Longrightarrow> \<not> dist_le st u cd \<or> (\<exists>d. distances st u = Some (enat d) \<and> d < cd)"
  shows "invariant graph start end_node {(cd, u)} (st\<lparr>priority_queue := heap\<rparr>)"
proof -
  let ?st1 = "st\<lparr>priority_queue := heap\<rparr>"
  have 1: "start_zero start ?st1" using inv by (simp add: invariant_def start_zero_def)
  have 2: "known_cells graph ?st1" using inv by (simp add: invariant_def known_cells_def)
  have 3: "dist_reached graph start ?st1" using inv by (simp add: invariant_def dist_reached_def)
  have 4: "queue_reached graph start ?st1"
    using inv sub unfolding invariant_def queue_reached_def by auto
  have 5: "queue_bound ?st1"
    using inv sub unfolding invariant_def queue_bound_def by auto
  have 6: "pred_ok graph ?st1" using inv by (simp add: invariant_def pred_ok_def)
  have 7: "pred_total start ?st1" using inv by (simp add: invariant_def pred_total_def)
  have e: "\<And>c d. expanded graph ?st1 c d = expanded graph st c d" by (simp add: expanded_def)
  have c0: "closed graph {} st" using inv by (simp add: invariant_def)
  have 8: "closed graph {(cd, u)} ?st1"
    unfolding closed_def
  proof (intro allI impI)
    fix c d assume "distances ?st1 c = Some (enat d)"
    then have "distances st c = Some (enat d)" by simp
    with c0 have "(d, c) \<in> set (priority_queue st) \<or> (d, c) \<in> {} \<or> expanded graph st c d"
      unfolding closed_def by blast
    then show "(d, c) \<in> set (priority_queue ?st1) \<or> (d, c) \<in> {(cd, u)} \<or> expanded graph ?st1 c d"
      using keep[of "(d, c)"] e by auto
  qed
  have g0: "goal_pending end_node st" using inv by (simp add: invariant_def)
  have 9: "goal_pending end_node ?st1"
    unfolding goal_pending_def
  proof (intro allI impI)
    fix d assume a: "distances ?st1 end_node = Some (enat d)"
    then have "distances st end_node = Some (enat d)" by simp
    with g0 have b: "(d, end_node) \<in> set (priority_queue st)"
      unfolding goal_pending_def by blast
    have "(d, end_node) \<noteq> (cd, u)"
    proof
      assume "(d, end_node) = (cd, u)"
      then have "u = end_node" "d = cd" by simp_all
      with goal a show False by (auto simp: dist_le_def)
    qed
    with keep[OF b] show "(d, end_node) \<in> set (priority_queue ?st1)" by simp
  qed
  show ?thesis unfolding invariant_def using 1 2 3 4 5 6 7 8 9 by blast
qed

lemma invariant_stale:
  assumes inv: "invariant graph start end_node {(cd, u)} st"
    and stale: "distances st u = Some (enat du)" "du < cd"
  shows "invariant graph start end_node {} st"
proof -
  have cl: "closed graph {(cd, u)} st" using inv by (simp add: invariant_def)
  have "closed graph {} st"
    unfolding closed_def
  proof (intro allI impI)
    fix c d assume a: "distances st c = Some (enat d)"
    with cl have "(d, c) \<in> set (priority_queue st) \<or> (d, c) \<in> {(cd, u)} \<or> expanded graph st c d"
      unfolding closed_def by blast
    moreover have "(d, c) \<noteq> (cd, u)" using a stale by auto
    ultimately show "(d, c) \<in> set (priority_queue st) \<or> (d, c) \<in> {} \<or> expanded graph st c d"
      by blast
  qed
  then show ?thesis using inv by (simp add: invariant_def)
qed

lemma invariant_expanded:
  assumes inv: "invariant graph start end_node {(cd, u)} st"
    and nbrs: "\<forall>n \<in> set (neighbors u). traversable graph n \<longrightarrow> dist_le st n (cd + 1)"
  shows "invariant graph start end_node {} st"
proof -
  have "expanded graph st u cd"
    using nbrs by (simp add: expanded_iff neighbors_adjacent)
  then have ex: "\<And>c d. (d, c) \<in> {(cd, u)} \<Longrightarrow> expanded graph st c d" by simp
  have cl: "closed graph {(cd, u)} st" using inv by (simp add: invariant_def)
  have "closed graph {} st"
    unfolding closed_def
  proof (intro allI impI)
    fix c d assume a: "distances st c = Some (enat d)"
    with cl have "(d, c) \<in> set (priority_queue st) \<or> (d, c) \<in> {(cd, u)} \<or> expanded graph st c d"
      unfolding closed_def by blast
    with ex show "(d, c) \<in> set (priority_queue st) \<or> (d, c) \<in> {} \<or> expanded graph st c d"
      by blast
  qed
  then show ?thesis using inv by (simp add: invariant_def)
qed

subsection \<open>Walks and reachability\<close>

lemma walk_single: "walk graph start start [start]"
  by (simp add: walk_def)

lemma walk_snoc:
  assumes "walk graph start p path" "adjacent p c" "traversable graph c"
  shows "walk graph start c (path @ [c])"
proof -
  from assms(1) have ne: "path \<noteq> []" and h: "hd path = start" and l: "last path = p"
    and s: "successively adjacent path" and t: "list_all (traversable graph) (tl path)"
    by (simp_all add: walk_def)
  have "successively adjacent (path @ [c])"
    using s ne l assms(2) by (simp add: successively_append_iff)
  moreover have "list_all (traversable graph) (tl (path @ [c]))"
    using t ne assms(3) by simp
  ultimately show ?thesis using ne h by (simp add: walk_def)
qed


lemma walk_imp_reach:
  "walk graph start c path \<Longrightarrow> reach graph start (length path - 1) c"
proof (induction path arbitrary: c rule: rev_induct)
  case Nil
  then show ?case by (simp add: walk_def)
next
  case (snoc x xs)
  from snoc.prems have c: "c = x" by (simp add: walk_def)
  show ?case
  proof (cases "xs = []")
    case True
    with snoc.prems have "x = start" by (simp add: walk_def)
    with True c show ?thesis by (simp add: reach_start)
  next
    case False
    from snoc.prems False have w: "walk graph start (last xs) xs"
      and a: "adjacent (last xs) x" and t: "traversable graph x"
      by (auto simp: walk_def successively_append_iff)
    from snoc.IH[OF w] have "reach graph start (length xs - 1) (last xs)" .
    then have "reach graph start (Suc (length xs - 1)) x" using a t by (rule reach_step)
    moreover have "Suc (length xs - 1) = length (xs @ [x]) - 1" using False by (cases xs) simp_all
    ultimately show ?thesis using c by simp
  qed
qed

lemma is_path_walk:
  "is_path graph start goal path \<longleftrightarrow> walk graph start goal path \<and> traversable graph start"
proof (cases path)
  case Nil
  then show ?thesis by (simp add: is_path_def walk_def)
next
  case (Cons x xs)
  then show ?thesis by (auto simp: is_path_def walk_def)
qed

subsection \<open>Following the predecessor map\<close>

lemma reconstruct_walk:
  assumes z: "start_zero start st" and ok: "pred_ok graph st" and tot: "pred_total start st"
  shows "distances st c = Some (enat d) \<Longrightarrow>
     \<exists>xs. reconstruct (previous_nodes st) c acc = Some (acc @ xs) \<and>
          walk graph start c (rev (xs @ [start])) \<and> length xs \<le> d"
proof (induction d arbitrary: c acc rule: less_induct)
  case (less d)
  show ?case
  proof (cases "previous_nodes st c")
    case None
    with less.prems tot have "c = start" unfolding pred_total_def by blast
    moreover have "reconstruct (previous_nodes st) c acc = Some (acc @ [])"
      using None by (simp add: reconstruct_no_predecessor)
    ultimately show ?thesis using walk_single[of graph start] by auto
  next
    case (Some p)
    with ok obtain d' dp where o: "distances st c = Some (enat d')" "distances st p = Some (enat dp)"
      "dp < d'" "adjacent p c" "traversable graph c"
      unfolding pred_ok_def by blast
    with less.prems have dd: "d' = d" by simp
    with o have lt: "dp < d" by simp
    from less.IH[OF lt o(2), of "acc @ [c]"]
    obtain xs where xs: "reconstruct (previous_nodes st) p (acc @ [c]) = Some ((acc @ [c]) @ xs)"
      "walk graph start p (rev (xs @ [start]))" "length xs \<le> dp" by blast
    have r: "reconstruct (previous_nodes st) c acc = Some (acc @ (c # xs))"
      using Some xs(1) by (subst reconstruct.simps) simp
    have "walk graph start c (rev (xs @ [start]) @ [c])"
      using xs(2) o(4,5) by (rule walk_snoc)
    then have w: "walk graph start c (rev ((c # xs) @ [start]))" by simp
    have "length (c # xs) \<le> d" using xs(3) lt by simp
    with r w show ?thesis by blast
  qed
qed

subsection \<open>Every walk is accounted for\<close>

lemma reach_bounded:
  assumes z: "start_zero start st" and cl: "closed graph {} st"
  shows "reach graph start k c \<Longrightarrow>
     dist_le st c k \<or> (\<exists>d c'. (d, c') \<in> set (priority_queue st) \<and> d < k)"
proof (induction rule: reach.induct)
  case reach_start
  from z have "dist_le st start 0" by (simp add: start_zero_def dist_le_def zero_enat_def)
  then show ?case by blast
next
  case (reach_step k u v)
  from reach_step.IH show ?case
  proof
    assume "dist_le st u k"
    then obtain d where d: "distances st u = Some (enat d)" "d \<le> k"
      unfolding dist_le_def by blast
    with cl have "(d, u) \<in> set (priority_queue st) \<or> expanded graph st u d"
      unfolding closed_def by blast
    then show ?thesis
    proof
      assume "(d, u) \<in> set (priority_queue st)"
      moreover have "d < Suc k" using d(2) by simp
      ultimately show ?thesis by blast
    next
      assume "expanded graph st u d"
      then have "dist_le st v (d + 1)"
        using reach_step.hyps(2,3) unfolding expanded_iff by blast
      then have "dist_le st v (Suc k)" using d(2) unfolding dist_le_def by auto
      then show ?thesis by blast
    qed
  next
    assume "\<exists>d c'. (d, c') \<in> set (priority_queue st) \<and> d < k"
    then obtain d c' where "(d, c') \<in> set (priority_queue st)" "d < k" by blast
    then have "(d, c') \<in> set (priority_queue st) \<and> d < Suc k" by simp
    then show ?thesis by blast
  qed
qed

subsection \<open>The state before the first pass\<close>

lemma initial_distances:
  "distances (initial_state graph start) c =
     (if c = start then Some 0 else if in_bounds graph c then Some \<infinity> else None)"
  by (simp add: initial_state_def init_distances_apply cells_in_bounds)

lemma initial_finite:
  "distances (initial_state graph start) c = Some (enat d) \<Longrightarrow> c = start \<and> d = 0"
  by (auto simp: initial_distances zero_enat_def split: if_splits)

lemma initial_queue: "priority_queue (initial_state graph start) = [(0, start)]"
  by (simp add: initial_state_def)

lemma initial_previous: "previous_nodes (initial_state graph start) = Map.empty"
  by (simp add: initial_state_def)

lemma invariant_initial: "invariant graph start end_node {} (initial_state graph start)"
proof -
  let ?st = "initial_state graph start"
  have 1: "start_zero start ?st" by (simp add: start_zero_def initial_distances)
  have 2: "known_cells graph ?st" by (simp add: known_cells_def initial_distances)
  have 3: "dist_reached graph start ?st"
    unfolding dist_reached_def using initial_finite reach_start by blast
  have 4: "queue_reached graph start ?st"
    by (simp add: queue_reached_def initial_queue reach_start)
  have 5: "queue_bound ?st"
    by (simp add: queue_bound_def initial_queue initial_distances zero_enat_def)
  have 6: "pred_ok graph ?st" by (simp add: pred_ok_def initial_previous)
  have 7: "pred_total start ?st"
    unfolding pred_total_def using initial_finite by blast
  have 8: "closed graph {} ?st"
    unfolding closed_def using initial_finite by (auto simp: initial_queue)
  have 9: "goal_pending end_node ?st"
    unfolding goal_pending_def using initial_finite by (auto simp: initial_queue)
  show ?thesis unfolding invariant_def using 1 2 3 4 5 6 7 8 9 by blast
qed

subsection \<open>One pass of the main loop\<close>

lemma no_increase_queue: "no_increase st (st\<lparr>priority_queue := heap\<rparr>)"
  by (simp add: no_increase_def)

lemma dist_le_queue: "dist_le (st\<lparr>priority_queue := heap\<rparr>) c k = dist_le st c k"
  by (simp add: dist_le_def)

lemma loop_body_invariant:
  assumes rect: "rectangular graph"
    and inv: "invariant graph start end_node {} st"
    and ne: "priority_queue st \<noteq> []"
  shows "(\<exists>st'. loop_body graph (int (length graph)) (int (length (hd graph))) start end_node st
                 = Continue st' \<and>
               invariant graph start end_node {} st' \<and> no_increase st st') \<or>
         (\<exists>path. loop_body graph (int (length graph)) (int (length (hd graph))) start end_node st
                 = Stop (Some (Inr (Some path))) \<and>
               walk graph start end_node path \<and>
               (\<forall>k. reach graph start k end_node \<longrightarrow> length path \<le> Suc k))"
proof -
  obtain cd u heap where pop: "heappop (priority_queue st) = ((cd, u), heap)"
    by (metis prod.exhaust)
  note hp = heappop_least[OF ne pop]
  let ?st1 = "st\<lparr>priority_queue := heap\<rparr>"
  have qb: "queue_bound st" and qr: "queue_reached graph start st"
    and z: "start_zero start st" and ok: "pred_ok graph st" and tot: "pred_total start st"
    and cl: "closed graph {} st"
    using inv by (simp_all add: invariant_def)
  from qb hp(1) obtain du where du: "distances st u = Some (enat du)" "du \<le> cd"
    unfolding queue_bound_def by blast
  from qr hp(1) have reach: "reach graph start cd u"
    unfolding queue_reached_def by blast
  note body = loop_body_unfold[OF pop, of graph "int (length graph)" "int (length (hd graph))" start end_node]
  show ?thesis
  proof (cases "du < cd")
    case True
    have b: "loop_body graph (int (length graph)) (int (length (hd graph))) start end_node st
             = Continue ?st1"
      using du True by (simp add: body)
    have "invariant graph start end_node {(cd, u)} ?st1"
      using inv hp(4) hp(3) du True by (intro invariant_pop) auto
    moreover have "distances ?st1 u = Some (enat du)" using du by simp
    ultimately have "invariant graph start end_node {} ?st1"
      using True by (rule invariant_stale)
    with b show ?thesis using no_increase_queue by blast
  next
    case False
    with du have eq: "du = cd" by simp
    show ?thesis
    proof (cases "u = end_node")
      case True
      from reconstruct_walk[OF z ok tot du(1), where acc = "[]"]
      obtain xs where xs: "reconstruct (previous_nodes st) u [] = Some xs"
        "walk graph start u (rev (xs @ [start]))" "length xs \<le> du" by auto
      let ?path = "rev (xs @ [start])"
      have b: "loop_body graph (int (length graph)) (int (length (hd graph))) start end_node st
               = Stop (Some (Inr (Some ?path)))"
        using du eq True xs(1) by (simp add: body)
      have short: "\<forall>k. reach graph start k end_node \<longrightarrow> length ?path \<le> Suc k"
      proof (intro allI impI)
        fix k assume "reach graph start k end_node"
        from reach_bounded[OF z cl this]
        have "cd \<le> k"
        proof
          assume "dist_le st end_node k"
          with True du eq show ?thesis by (simp add: dist_le_def)
        next
          assume "\<exists>d c'. (d, c') \<in> set (priority_queue st) \<and> d < k"
          then obtain d c' where "(d, c') \<in> set (priority_queue st)" "d < k" by blast
          with hp(2) show ?thesis by fastforce
        qed
        with xs(3) eq show "length ?path \<le> Suc k" by simp
      qed
      show ?thesis using b xs(2) True short by blast
    next
      case False
      have inv1: "invariant graph start end_node {(cd, u)} ?st1"
        using inv hp(4) hp(3) False by (intro invariant_pop) auto
      have u1: "dist_le ?st1 u cd" using du by (simp add: dist_le_def)
      have adj: "\<forall>n \<in> set (neighbors u). adjacent u n" by (simp add: neighbors_adjacent)
      from relax_all_steps[OF rect reach inv1 u1 adj]
      obtain st2 where st2:
        "relax_all graph (int (length graph)) (int (length (hd graph))) cd u (neighbors u) ?st1 = Inr st2"
        "invariant graph start end_node {(cd, u)} st2" "no_increase ?st1 st2"
        "\<forall>n \<in> set (neighbors u). traversable graph n \<longrightarrow> dist_le st2 n (cd + 1)" by blast
      have b: "loop_body graph (int (length graph)) (int (length (hd graph))) start end_node st
               = Continue st2"
        using du eq False st2(1) by (simp add: body)
      have "invariant graph start end_node {} st2" using st2(2,4) by (rule invariant_expanded)
      moreover have "no_increase st st2"
        using no_increase_queue st2(3) by (rule no_increase_trans)
      ultimately show ?thesis using b by blast
    qed
  qed
qed

subsection \<open>The whole search\<close>

lemma search_correct:
  "rectangular graph \<Longrightarrow> rows = int (length graph) \<Longrightarrow> cols = int (length (hd graph)) \<Longrightarrow>
   invariant graph start end_node {} st \<Longrightarrow>
   \<exists>res. search graph rows cols start end_node st = Some (Inr res) \<and>
     (case res of
        None \<Rightarrow> \<forall>k. \<not> reach graph start k end_node
      | Some path \<Rightarrow> walk graph start end_node path \<and>
          (\<forall>k. reach graph start k end_node \<longrightarrow> length path \<le> Suc k))"
proof (induction graph rows cols start end_node st rule: search.induct)
  case (1 graph rows cols start end_node st)
  note rect = "1.prems"(1) and inv = "1.prems"(4)
  show ?case
  proof (cases "priority_queue st = []")
    case True
    have s: "search graph rows cols start end_node st = Some (Inr None)"
      using True by (subst search.simps) simp
    have z: "start_zero start st" and cl: "closed graph {} st"
      and gp: "goal_pending end_node st"
      using inv by (simp_all add: invariant_def)
    have "\<forall>k. \<not> reach graph start k end_node"
    proof (intro allI notI)
      fix k assume "reach graph start k end_node"
      from reach_bounded[OF z cl this] True have "dist_le st end_node k" by simp
      then obtain d where "distances st end_node = Some (enat d)" unfolding dist_le_def by blast
      with gp have "(d, end_node) \<in> set (priority_queue st)" unfolding goal_pending_def by blast
      with True show False by simp
    qed
    with s show ?thesis by simp
  next
    case False
    from loop_body_invariant[OF rect inv False] "1.prems"(2,3)
    consider st' where "loop_body graph rows cols start end_node st = Continue st'"
        "invariant graph start end_node {} st'"
      | path where "loop_body graph rows cols start end_node st = Stop (Some (Inr (Some path)))"
        "walk graph start end_node path"
        "\<forall>k. reach graph start k end_node \<longrightarrow> length path \<le> Suc k"
      by auto
    then show ?thesis
    proof cases
      case 1
      note c = this
      have s: "search graph rows cols start end_node st = search graph rows cols start end_node st'"
        using False c(1) by (subst search.simps) simp
      from "1.IH"[OF False c(1) rect "1.prems"(2,3) c(2)] s show ?thesis by simp
    next
      case 2
      have s: "search graph rows cols start end_node st = Some (Inr (Some path))"
        using False 2(1) by (subst search.simps) simp
      with 2(2,3) show ?thesis by simp
    qed
  qed
qed

lemma dijkstra_correct:
  assumes "rectangular graph"
  shows "\<exists>res. dijkstra graph start end_node = Some (Inr res) \<and>
     (case res of
        None \<Rightarrow> \<forall>k. \<not> reach graph start k end_node
      | Some path \<Rightarrow> walk graph start end_node path \<and>
          (\<forall>k. reach graph start k end_node \<longrightarrow> length path \<le> Suc k))"
proof -
  from assms have ne: "graph \<noteq> []" by (simp add: rectangular_def)
  show ?thesis
    unfolding dijkstra_nonempty[OF ne]
    using assms refl refl invariant_initial by (rule search_correct)
qed

section \<open>Shortest paths\<close>

lemma is_path_reach:
  assumes "is_path graph start goal q"
  shows "reach graph start (hops q) goal"
proof -
  from assms have "walk graph start goal q" by (simp add: is_path_walk)
  then show ?thesis unfolding hops_def by (rule walk_imp_reach)
qed

text \<open>
  C1. On a non-empty rectangular grid with in-bounds traversable start and goal, a path
  returned by \<open>dijkstra\<close> runs from start to goal inclusive, moves between 4-directionally
  adjacent cells, stays on traversable cells, and no path from start to goal has fewer hops.
\<close>

theorem dijkstra_shortest_path:
  assumes "rectangular graph"
    and "traversable graph start" and "traversable graph end_node"
    and "dijkstra graph start end_node = Some (Inr (Some path))"
  shows "is_path graph start end_node path \<and>
         (\<forall>q. is_path graph start end_node q \<longrightarrow> hops path \<le> hops q)"
proof -
  from dijkstra_correct[OF assms(1), of start end_node] assms(4)
  have w: "walk graph start end_node path"
    and m: "\<And>k. reach graph start k end_node \<Longrightarrow> length path \<le> Suc k"
    by auto
  have "is_path graph start end_node path" using w assms(2) by (simp add: is_path_walk)
  moreover have "hops path \<le> hops q" if "is_path graph start end_node q" for q
    using m[OF is_path_reach[OF that]] by (simp add: hops_def)
  ultimately show ?thesis by blast
qed

theorem dijkstra_shortest_path_witness:
  "rectangular [[0, 0, 0], [0, 1, 0], [0, 0, 0]] \<and>
   traversable [[0, 0, 0], [0, 1, 0], [0, 0, 0]] (1, 0) \<and>
   traversable [[0, 0, 0], [0, 1, 0], [0, 0, 0]] (1, 2) \<and>
   dijkstra [[0, 0, 0], [0, 1, 0], [0, 0, 0]] (1, 0) (1, 2) =
     Some (Inr (Some [(1, 0), (0, 0), (0, 1), (0, 2), (1, 2)])) \<and>
   is_path [[0, 0, 0], [0, 1, 0], [0, 0, 0]] (1, 0) (1, 2) [(1, 0), (0, 0), (0, 1), (0, 2), (1, 2)] \<and>
   is_path [[0, 0, 0], [0, 1, 0], [0, 0, 0]] (1, 0) (1, 2) [(1, 0), (2, 0), (2, 1), (2, 2), (1, 2)] \<and>
   hops [(1, 0), (0, 0), (0, 1), (0, 2), (1, 2)] \<le> hops [(1, 0), (2, 0), (2, 1), (2, 2), (1, 2)]"
proof -
  let ?g = "[[0, 0, 0], [0, 1, 0], [0, 0, 0]] :: int list list"
  have r: "rectangular ?g" by (simp add: rectangular_def)
  have s: "traversable ?g (1, 0)" by (simp add: traversable_def in_bounds_def)
  have e: "traversable ?g (1, 2)" by (simp add: traversable_def in_bounds_def)
  have d: "dijkstra ?g (1, 0) (1, 2) = Some (Inr (Some [(1, 0), (0, 0), (0, 1), (0, 2), (1, 2)]))"
    by code_simp
  have q: "is_path ?g (1, 0) (1, 2) [(1, 0), (2, 0), (2, 1), (2, 2), (1, 2)]"
    by (simp add: is_path_def adjacent_def traversable_def in_bounds_def)
  from dijkstra_shortest_path[OF r s e d] q r s e d show ?thesis by blast
qed

section \<open>Termination without error\<close>

text \<open>
  C2. On a non-empty rectangular grid with in-bounds traversable start and goal the call
  returns: the main loop is a total function (its termination is proved where \<open>search\<close> is
  defined), the reconstruction loop comes back, and the value is a list of cells or
  \<open>None\<close>, never an exception from a list index or a dictionary lookup.
\<close>

theorem dijkstra_returns:
  assumes "rectangular graph"
    and "traversable graph start" and "traversable graph end_node"
  shows "\<exists>res. dijkstra graph start end_node = Some (Inr res)"
  using dijkstra_correct[OF assms(1), of start end_node] by blast

theorem dijkstra_returns_witness:
  "rectangular [[0, 1], [0, 0]] \<and> traversable [[0, 1], [0, 0]] (0, 0) \<and>
   traversable [[0, 1], [0, 0]] (1, 1) \<and>
   (\<exists>res. dijkstra [[0, 1], [0, 0]] (0, 0) (1, 1) = Some (Inr res))"
proof -
  let ?g = "[[0, 1], [0, 0]] :: int list list"
  have r: "rectangular ?g" by (simp add: rectangular_def)
  have s: "traversable ?g (0, 0)" by (simp add: traversable_def in_bounds_def)
  have e: "traversable ?g (1, 1)" by (simp add: traversable_def in_bounds_def)
  from dijkstra_returns[OF r s e] r s e show ?thesis by blast
qed

section \<open>Unreachable goal\<close>

text \<open>
  C6. On a non-empty rectangular grid with in-bounds traversable start and goal that no path
  of traversable 4-directionally adjacent cells connects, \<open>dijkstra\<close> returns \<open>None\<close>, and
  raises nothing.
\<close>

theorem dijkstra_no_path:
  assumes "rectangular graph"
    and "traversable graph start" and "traversable graph end_node"
    and "\<not> (\<exists>q. is_path graph start end_node q)"
  shows "dijkstra graph start end_node = Some (Inr None)"
proof -
  from dijkstra_correct[OF assms(1), of start end_node]
  obtain res where res: "dijkstra graph start end_node = Some (Inr res)"
    "case res of None \<Rightarrow> True | Some path \<Rightarrow> walk graph start end_node path"
    by (auto split: option.splits)
  show ?thesis
  proof (cases res)
    case None
    with res(1) show ?thesis by simp
  next
    case (Some path)
    with res(2) have "walk graph start end_node path" by simp
    then have "is_path graph start end_node path" using assms(2) by (simp add: is_path_walk)
    with assms(4) show ?thesis by blast
  qed
qed

theorem dijkstra_no_path_witness:
  "rectangular [[0, 1, 0]] \<and> traversable [[0, 1, 0]] (0, 0) \<and> traversable [[0, 1, 0]] (0, 2) \<and>
   \<not> (\<exists>q. is_path [[0, 1, 0]] (0, 0) (0, 2) q) \<and>
   dijkstra [[0, 1, 0]] (0, 0) (0, 2) = Some (Inr None)"
proof -
  let ?g = "[[0, 1, 0]] :: int list list"
  have r: "rectangular ?g" by (simp add: rectangular_def)
  have s: "traversable ?g (0, 0)" by (simp add: traversable_def in_bounds_def)
  have e: "traversable ?g (0, 2)" by (simp add: traversable_def in_bounds_def)
  have stuck: "c = (0, 0)" if "reach ?g (0, 0) k c" for k c
    using that
  proof (induction rule: reach.induct)
    case reach_start
    show ?case by simp
  next
    case (reach_step k u v)
    obtain a b where v: "v = (a, b)" by (cases v)
    from reach_step.hyps(3) v have "a = 0" "0 \<le> b" "b < 3" "[0, 1, 0 :: int] ! nat b = 0"
      by (auto simp: traversable_def in_bounds_def)
    moreover from reach_step.hyps(2) reach_step.IH v \<open>a = 0\<close> have "\<bar>b\<bar> = 1"
      by (simp add: adjacent_def)
    ultimately have "b = 1" "[0, 1, 0 :: int] ! nat b = 0" by simp_all
    then show ?case by simp
  qed
  have n: "\<not> (\<exists>q. is_path ?g (0, 0) (0, 2) q)"
  proof
    assume "\<exists>q. is_path ?g (0, 0) (0, 2) q"
    then obtain q where "is_path ?g (0, 0) (0, 2) q" by blast
    then have "reach ?g (0, 0) (hops q) (0, 2)" by (rule is_path_reach)
    then have "(0 :: int, 2 :: int) = (0, 0)" by (rule stuck)
    then show False by simp
  qed
  from dijkstra_no_path[OF r s e n] r s e n show ?thesis by blast
qed

section \<open>Open grids: the Manhattan distance\<close>

lemma adjacent_manhattan: "adjacent u v \<Longrightarrow> manhattan s v \<le> manhattan s u + 1"
  by (auto simp: adjacent_def manhattan_def)

lemma reach_manhattan: "reach graph start k c \<Longrightarrow> manhattan start c \<le> int k"
proof (induction rule: reach.induct)
  case reach_start
  show ?case by (simp add: manhattan_def)
next
  case (reach_step k u v)
  from adjacent_manhattan[OF reach_step.hyps(2), of start] reach_step.IH
  show ?case by simp
qed

lemma rectangular_row:
  "rectangular graph \<Longrightarrow> row \<in> set graph \<Longrightarrow> length row = length (hd graph)"
  unfolding rectangular_def by blast

lemma open_traversable:
  assumes "rectangular graph" "no_obstacles graph" "in_bounds graph c"
  shows "traversable graph c"
proof -
  from assms(3) have r: "nat (fst c) < length graph" and c: "nat (snd c) < length (hd graph)"
    by (auto simp: in_bounds_def)
  have row: "graph ! nat (fst c) \<in> set graph" using r by simp
  then have "length (graph ! nat (fst c)) = length (hd graph)"
    using assms(1) by (simp add: rectangular_row)
  with c have "graph ! nat (fst c) ! nat (snd c) \<in> set (graph ! nat (fst c))" by simp
  with row assms(2) have "graph ! nat (fst c) ! nat (snd c) = 0"
    unfolding no_obstacles_def by blast
  with assms(3) show ?thesis by (simp add: traversable_def)
qed

lemma step_closer:
  assumes "in_bounds graph s" "in_bounds graph c" "manhattan s c = int (Suc n)"
  shows "\<exists>v. in_bounds graph v \<and> adjacent v c \<and> manhattan s v = int n"
proof -
  consider "fst s < fst c" | "fst c < fst s" | "fst c = fst s" "snd s < snd c"
    | "fst c = fst s" "snd c < snd s"
  proof -
    have "fst c \<noteq> fst s \<or> snd c \<noteq> snd s"
      using assms(3) by (auto simp: manhattan_def)
    then show ?thesis using that by (metis linorder_neqE_linordered_idom)
  qed
  then show ?thesis
  proof cases
    case 1
    let ?v = "(fst c - 1, snd c)"
    have "in_bounds graph ?v" using assms(1,2) 1 by (simp add: in_bounds_def)
    moreover have "adjacent ?v c" by (simp add: adjacent_def)
    moreover have "manhattan s ?v = int n" using assms(3) 1 by (simp add: manhattan_def)
    ultimately show ?thesis by blast
  next
    case 2
    let ?v = "(fst c + 1, snd c)"
    have "in_bounds graph ?v" using assms(1,2) 2 by (simp add: in_bounds_def)
    moreover have "adjacent ?v c" by (simp add: adjacent_def)
    moreover have "manhattan s ?v = int n" using assms(3) 2 by (simp add: manhattan_def)
    ultimately show ?thesis by blast
  next
    case 3
    let ?v = "(fst c, snd c - 1)"
    have "in_bounds graph ?v" using assms(1,2) 3 by (simp add: in_bounds_def)
    moreover have "adjacent ?v c" by (simp add: adjacent_def)
    moreover have "manhattan s ?v = int n" using assms(3) 3 by (simp add: manhattan_def)
    ultimately show ?thesis by blast
  next
    case 4
    let ?v = "(fst c, snd c + 1)"
    have "in_bounds graph ?v" using assms(1,2) 4 by (simp add: in_bounds_def)
    moreover have "adjacent ?v c" by (simp add: adjacent_def)
    moreover have "manhattan s ?v = int n" using assms(3) 4 by (simp add: manhattan_def)
    ultimately show ?thesis by blast
  qed
qed

lemma open_reach:
  assumes "rectangular graph" "no_obstacles graph" "in_bounds graph start"
  shows "in_bounds graph c \<Longrightarrow> manhattan start c = int n \<Longrightarrow> reach graph start n c"
proof (induction n arbitrary: c)
  case 0
  then have "fst c = fst start" "snd c = snd start" by (simp_all add: manhattan_def)
  then have "c = start" by (simp add: prod_eq_iff)
  then show ?case by (simp add: reach_start)
next
  case (Suc n)
  from step_closer[OF assms(3) Suc.prems]
  obtain v where v: "in_bounds graph v" "adjacent v c" "manhattan start v = int n" by blast
  from Suc.IH[OF v(1,3)] have "reach graph start n v" .
  moreover have "traversable graph c" using assms(1,2) Suc.prems(1) by (rule open_traversable)
  ultimately show ?case using v(2) by (intro reach_step)
qed

text \<open>
  C3. On a non-empty rectangular grid with no Blocked cell, for in-bounds start and goal,
  \<open>dijkstra\<close> returns a path, from start to goal over adjacent traversable cells, whose hop
  count (cells minus one) is the Manhattan distance
  \<open>|start.row - goal.row| + |start.col - goal.col|\<close>.
\<close>

theorem open_grid_manhattan:
  assumes "rectangular graph" and "no_obstacles graph"
    and "in_bounds graph start" and "in_bounds graph end_node"
  shows "\<exists>path. dijkstra graph start end_node = Some (Inr (Some path)) \<and>
           is_path graph start end_node path \<and>
           int (hops path) = manhattan start end_node"
proof -
  have ts: "traversable graph start" using assms(1,2,3) by (rule open_traversable)
  have "0 \<le> manhattan start end_node" by (simp add: manhattan_def)
  then obtain n where n: "manhattan start end_node = int n" by (metis nonneg_int_cases)
  have rn: "reach graph start n end_node" using assms n by (rule open_reach)
  from dijkstra_correct[OF assms(1), of start end_node]
  obtain res where res: "dijkstra graph start end_node = Some (Inr res)"
    and spec: "case res of None \<Rightarrow> \<forall>k. \<not> reach graph start k end_node
      | Some path \<Rightarrow> walk graph start end_node path \<and>
          (\<forall>k. reach graph start k end_node \<longrightarrow> length path \<le> Suc k)"
    by blast
  show ?thesis
  proof (cases res)
    case None
    with spec rn show ?thesis by simp
  next
    case (Some path)
    with spec have w: "walk graph start end_node path"
      and m: "\<And>k. reach graph start k end_node \<Longrightarrow> length path \<le> Suc k" by simp_all
    from m[OF rn] have "hops path \<le> n" by (simp add: hops_def)
    moreover from walk_imp_reach[OF w] have "manhattan start end_node \<le> int (hops path)"
      unfolding hops_def by (rule reach_manhattan)
    ultimately have "int (hops path) = manhattan start end_node" using n by simp
    moreover have "is_path graph start end_node path" using w ts by (simp add: is_path_walk)
    ultimately show ?thesis using res Some by simp
  qed
qed

theorem open_grid_manhattan_witness:
  "rectangular [[0, 0, 0], [0, 0, 0]] \<and> no_obstacles [[0, 0, 0], [0, 0, 0]] \<and>
   in_bounds [[0, 0, 0], [0, 0, 0]] (1, 0) \<and> in_bounds [[0, 0, 0], [0, 0, 0]] (0, 2) \<and>
   (\<exists>path. dijkstra [[0, 0, 0], [0, 0, 0]] (1, 0) (0, 2) = Some (Inr (Some path)) \<and>
      is_path [[0, 0, 0], [0, 0, 0]] (1, 0) (0, 2) path \<and>
      int (hops path) = manhattan (1, 0) (0, 2))"
proof -
  let ?g = "[[0, 0, 0], [0, 0, 0]] :: int list list"
  have r: "rectangular ?g" by (simp add: rectangular_def)
  have o: "no_obstacles ?g" by (simp add: no_obstacles_def)
  have s: "in_bounds ?g (1, 0)" by (simp add: in_bounds_def)
  have e: "in_bounds ?g (0, 2)" by (simp add: in_bounds_def)
  from open_grid_manhattan[OF r o s e] r o s e show ?thesis by blast
qed

section \<open>Adding an obstacle\<close>

lemma add_obstacle_nth:
  assumes "in_bounds graph x" "i < length graph"
  shows "add_obstacle graph x ! i =
     (if i = nat (fst x) then (graph ! i)[nat (snd x) := 1] else graph ! i)"
  using assms by (simp add: add_obstacle_def nth_list_update)

lemma add_obstacle_length: "length (add_obstacle graph x) = length graph"
  by (simp add: add_obstacle_def)

lemma add_obstacle_row_length:
  assumes "in_bounds graph x" "i < length graph"
  shows "length (add_obstacle graph x ! i) = length (graph ! i)"
  using assms by (simp add: add_obstacle_nth)

lemma add_obstacle_hd:
  assumes "in_bounds graph x"
  shows "length (hd (add_obstacle graph x)) = length (hd graph)"
proof -
  from assms have ne: "graph \<noteq> []" by (auto simp: in_bounds_def)
  then have ne': "add_obstacle graph x \<noteq> []" by (simp add: add_obstacle_def)
  have "0 < length graph" using ne by simp
  then have "length (add_obstacle graph x ! 0) = length (graph ! 0)"
    using assms by (simp add: add_obstacle_row_length)
  then show ?thesis using ne ne' by (simp add: hd_conv_nth)
qed

lemma add_obstacle_in_bounds:
  "in_bounds graph x \<Longrightarrow> in_bounds (add_obstacle graph x) c = in_bounds graph c"
  by (simp add: in_bounds_def add_obstacle_length add_obstacle_hd)

lemma add_obstacle_rectangular:
  assumes "rectangular graph" "in_bounds graph x"
  shows "rectangular (add_obstacle graph x)"
proof -
  from assms(1) have ne: "graph \<noteq> []" by (simp add: rectangular_def)
  have "length row = length (hd (add_obstacle graph x))" if "row \<in> set (add_obstacle graph x)" for row
  proof -
    from that obtain i where i: "i < length graph" "row = add_obstacle graph x ! i"
      by (auto simp: in_set_conv_nth add_obstacle_length)
    then have "length row = length (graph ! i)" using assms(2) by (simp add: add_obstacle_row_length)
    also have "\<dots> = length (hd graph)" using assms(1) i(1) by (simp add: rectangular_row)
    finally show ?thesis using assms(2) by (simp add: add_obstacle_hd)
  qed
  moreover have "add_obstacle graph x \<noteq> []" using ne by (simp add: add_obstacle_def)
  ultimately show ?thesis unfolding rectangular_def by blast
qed

lemma add_obstacle_traversable:
  assumes "in_bounds graph x" "traversable (add_obstacle graph x) c"
  shows "traversable graph c"
proof -
  from assms have ib: "in_bounds graph c" by (simp add: traversable_def add_obstacle_in_bounds)
  then have i: "nat (fst c) < length graph" by (auto simp: in_bounds_def)
  from assms(2) have z: "add_obstacle graph x ! nat (fst c) ! nat (snd c) = 0"
    by (simp add: traversable_def)
  have "graph ! nat (fst c) ! nat (snd c) = 0"
  proof (cases "nat (fst c) = nat (fst x)")
    case False
    with z assms(1) i show ?thesis by (simp add: add_obstacle_nth)
  next
    case True
    with z assms(1) i have u: "(graph ! nat (fst c))[nat (snd x) := 1] ! nat (snd c) = 0"
      by (simp add: add_obstacle_nth)
    show ?thesis
    proof (cases "nat (snd x) < length (graph ! nat (fst c))")
      case False
      then have "(graph ! nat (fst c))[nat (snd x) := 1] = graph ! nat (fst c)"
        by (simp add: list_update_beyond)
      with u show ?thesis by simp
    next
      case inside: True
      show ?thesis
      proof (cases "nat (snd c) = nat (snd x)")
        case True
        with u inside show ?thesis by simp
      next
        case False
        with u show ?thesis by simp
      qed
    qed
  qed
  with ib show ?thesis by (simp add: traversable_def)
qed

lemma walk_mono:
  assumes "walk graph' start goal path" "\<And>c. traversable graph' c \<Longrightarrow> traversable graph c"
  shows "walk graph start goal path"
proof -
  from assms(1) have "list_all (traversable graph') (tl path)" by (simp add: walk_def)
  then have "list_all (traversable graph) (tl path)"
    using assms(2) by (auto simp: list_all_iff)
  with assms(1) show ?thesis by (simp add: walk_def)
qed

text \<open>
  C4. Let \<open>G'\<close> be \<open>G\<close> with exactly one Traversable cell changed to Blocked, and start and goal
  in-bounds traversable cells. When \<open>dijkstra\<close> returns a path on both grids, the path on
  \<open>G'\<close> has at least as many hops as the path on \<open>G\<close>.
\<close>

theorem obstacle_monotone:
  assumes "rectangular graph" and "traversable graph cell"
    and "traversable graph start" and "traversable graph end_node"
    and "dijkstra graph start end_node = Some (Inr (Some path))"
    and "dijkstra (add_obstacle graph cell) start end_node = Some (Inr (Some path'))"
  shows "hops path \<le> hops path'"
proof -
  from assms(2) have ib: "in_bounds graph cell" by (simp add: traversable_def)
  have rect': "rectangular (add_obstacle graph cell)"
    using assms(1) ib by (rule add_obstacle_rectangular)
  from dijkstra_correct[OF rect', of start end_node] assms(6)
  have "walk (add_obstacle graph cell) start end_node path'" by auto
  then have "walk graph start end_node path'"
    using add_obstacle_traversable[OF ib] by (rule walk_mono)
  then have r: "reach graph start (length path' - 1) end_node" by (rule walk_imp_reach)
  from dijkstra_correct[OF assms(1), of start end_node] assms(5)
  have "\<And>k. reach graph start k end_node \<Longrightarrow> length path \<le> Suc k" by auto
  from this[OF r] show ?thesis by (simp add: hops_def)
qed

theorem obstacle_monotone_witness:
  "rectangular [[0, 0, 0], [0, 0, 0]] \<and> traversable [[0, 0, 0], [0, 0, 0]] (0, 1) \<and>
   traversable [[0, 0, 0], [0, 0, 0]] (0, 0) \<and> traversable [[0, 0, 0], [0, 0, 0]] (0, 2) \<and>
   add_obstacle [[0, 0, 0], [0, 0, 0]] (0, 1) = [[0, 1, 0], [0, 0, 0]] \<and>
   dijkstra [[0, 0, 0], [0, 0, 0]] (0, 0) (0, 2) = Some (Inr (Some [(0, 0), (0, 1), (0, 2)])) \<and>
   dijkstra (add_obstacle [[0, 0, 0], [0, 0, 0]] (0, 1)) (0, 0) (0, 2) =
     Some (Inr (Some [(0, 0), (1, 0), (1, 1), (1, 2), (0, 2)])) \<and>
   hops [(0, 0), (0, 1), (0, 2)] \<le> hops [(0, 0), (1, 0), (1, 1), (1, 2), (0, 2)]"
proof -
  let ?g = "[[0, 0, 0], [0, 0, 0]] :: int list list"
  have r: "rectangular ?g" by (simp add: rectangular_def)
  have x: "traversable ?g (0, 1)" by (simp add: traversable_def in_bounds_def)
  have s: "traversable ?g (0, 0)" by (simp add: traversable_def in_bounds_def)
  have e: "traversable ?g (0, 2)" by (simp add: traversable_def in_bounds_def)
  have a: "add_obstacle ?g (0, 1) = [[0, 1, 0], [0, 0, 0]]" by (simp add: add_obstacle_def)
  have d: "dijkstra ?g (0, 0) (0, 2) = Some (Inr (Some [(0, 0), (0, 1), (0, 2)]))"
    by code_simp
  have d': "dijkstra (add_obstacle ?g (0, 1)) (0, 0) (0, 2) =
      Some (Inr (Some [(0, 0), (1, 0), (1, 1), (1, 2), (0, 2)]))"
    unfolding a by code_simp
  from obstacle_monotone[OF r x s e d d'] r x s e a d d' show ?thesis by blast
qed

section \<open>The distance map from pass to pass\<close>


lemma iterations_Suc:
  assumes "iterations graph rows cols start end_node st (Suc n) = Some s'"
  shows "\<exists>s. iterations graph rows cols start end_node st n = Some s \<and>
             priority_queue s \<noteq> [] \<and> loop_body graph rows cols start end_node s = Continue s'"
proof (cases "iterations graph rows cols start end_node st n")
  case None
  with assms show ?thesis by simp
next
  case (Some s)
  show ?thesis
  proof (cases "priority_queue s = []")
    case True
    with assms Some show ?thesis by simp
  next
    case False
    with assms Some show ?thesis
      by (cases "loop_body graph rows cols start end_node s") simp_all
  qed
qed

text \<open>These are the states the call itself goes through.\<close>

lemma search_iterations:
  "iterations graph rows cols start end_node st n = Some s \<Longrightarrow>
   search graph rows cols start end_node st = search graph rows cols start end_node s"
proof (induction n arbitrary: s)
  case 0
  then show ?case by simp
next
  case (Suc n)
  from iterations_Suc[OF Suc.prems] obtain s0 where
    s0: "iterations graph rows cols start end_node st n = Some s0"
      "priority_queue s0 \<noteq> []" "loop_body graph rows cols start end_node s0 = Continue s"
    by blast
  have "search graph rows cols start end_node s0 = search graph rows cols start end_node s"
    using s0(2,3) by (subst search.simps) simp
  with Suc.IH[OF s0(1)] show ?case by simp
qed




section \<open>Inputs that are not validated\<close>

subsection \<open>The only exception a non-empty grid can raise\<close>

lemma index_error: "index xs i = Inl err \<Longrightarrow> err = IndexError \<and> (i < 0 \<or> int (length xs) \<le> i)"
  by (auto simp: index_def split: if_splits)

lemma relax_keys:
  assumes "keys_defined rows cols st" "relax graph rows cols cd u n st = Inr st'"
  shows "keys_defined rows cols st'"
proof -
  from relax_cases[OF assms(2)] consider "st' = st"
    | "st' = st\<lparr>distances := (distances st)(n \<mapsto> enat (cd + 1)),
                 previous_nodes := (previous_nodes st)(n \<mapsto> u),
                 priority_queue := heappush (priority_queue st) (cd + 1, n)\<rparr>"
    by blast
  then show ?thesis
  proof cases
    case 1
    with assms(1) show ?thesis by simp
  next
    case 2
    with assms(1) show ?thesis by (auto simp: keys_defined_def heappush_def)
  qed
qed

lemma relax_error:
  assumes "keys_defined (int (length graph)) cols st"
    and "relax graph (int (length graph)) cols cd u n st = Inl err"
  shows "err = IndexError \<and> (\<exists>row \<in> set graph. int (length row) < cols)"
proof (cases "0 \<le> fst n \<and> fst n < int (length graph) \<and> 0 \<le> snd n \<and> snd n < cols")
  case False
  with assms(2) show ?thesis by (simp add: relax_out_of_bounds)
next
  case True
  then have r: "0 \<le> fst n" "fst n < int (length graph)" and c: "0 \<le> snd n" "snd n < cols"
    by simp_all
  have i1: "index graph (fst n) = Inr (graph ! nat (fst n))" using r by (rule index_in_range)
  have row: "graph ! nat (fst n) \<in> set graph" using r by simp
  show ?thesis
  proof (cases "index (graph ! nat (fst n)) (snd n)")
    case (Inl e)
    have eq: "relax graph (int (length graph)) cols cd u n st = Inl e"
      using True i1 Inl by (cases n) (simp add: relax_def)
    from index_error[OF Inl] c(1) have "e = IndexError" "int (length (graph ! nat (fst n))) \<le> snd n"
      by auto
    then have "err = IndexError" "int (length (graph ! nat (fst n))) < cols"
      using c(2) eq assms(2) by simp_all
    with row show ?thesis by blast
  next
    case (Inr v)
    have "n \<in> cells (int (length graph)) cols" using r c by (cases n) (simp add: cells_def)
    with assms(1) obtain x where x: "distances st n = Some x"
      unfolding keys_defined_def by blast
    from assms(2) show ?thesis
      unfolding relax_in_bounds[OF r c i1 Inr] using x by (simp split: if_splits)
  qed
qed

lemma relax_all_keys:
  "keys_defined (int (length graph)) cols st \<Longrightarrow>
   (relax_all graph (int (length graph)) cols cd u ns st = Inr st' \<longrightarrow>
      keys_defined (int (length graph)) cols st') \<and>
   (relax_all graph (int (length graph)) cols cd u ns st = Inl err \<longrightarrow>
      err = IndexError \<and> (\<exists>row \<in> set graph. int (length row) < cols))"
proof (induction ns arbitrary: st)
  case Nil
  then show ?case by auto
next
  case (Cons n ns)
  show ?case
  proof (cases "relax graph (int (length graph)) cols cd u n st")
    case (Inl e)
    from relax_error[OF Cons.prems Inl] Inl show ?thesis by simp
  next
    case (Inr s)
    from relax_keys[OF Cons.prems Inr] have "keys_defined (int (length graph)) cols s" .
    from Cons.IH[OF this] Inr show ?thesis by simp
  qed
qed

lemma loop_body_keys:
  assumes k: "keys_defined (int (length graph)) cols st" and ne: "priority_queue st \<noteq> []"
  shows "(loop_body graph (int (length graph)) cols start end_node st = Continue st' \<longrightarrow>
            keys_defined (int (length graph)) cols st') \<and>
         (loop_body graph (int (length graph)) cols start end_node st = Stop (Some (Inl err)) \<longrightarrow>
            err = IndexError \<and> (\<exists>row \<in> set graph. int (length row) < cols))"
proof -
  obtain cd u heap where pop: "heappop (priority_queue st) = ((cd, u), heap)"
    by (metis prod.exhaust)
  note hp = heappop_least[OF ne pop]
  let ?s1 = "st\<lparr>priority_queue := heap\<rparr>"
  from k hp(1) obtain x where x: "distances st u = Some x"
    unfolding keys_defined_def by blast
  have k1: "keys_defined (int (length graph)) cols ?s1"
    using k hp(4) unfolding keys_defined_def by auto
  note b = loop_body_unfold[OF pop, of graph "int (length graph)" cols start end_node]
  show ?thesis
  proof (cases "x < enat cd")
    case True
    then show ?thesis using x k1 by (auto simp: b)
  next
    case fresh: False
    show ?thesis
    proof (cases "u = end_node")
      case True
      then show ?thesis using x fresh
        by (cases "reconstruct (previous_nodes st) u []") (simp_all add: b)
    next
      case False
      from relax_all_keys[OF k1, of cd u "neighbors u" st' err]
      show ?thesis using x fresh False
        by (cases "relax_all graph (int (length graph)) cols cd u (neighbors u) ?s1")
           (simp_all add: b)
    qed
  qed
qed

lemma search_error:
  "rows = int (length graph) \<Longrightarrow> keys_defined rows cols st \<Longrightarrow>
   search graph rows cols start end_node st = Some (Inl err) \<Longrightarrow>
   err = IndexError \<and> (\<exists>row \<in> set graph. int (length row) < cols)"
proof (induction graph rows cols start end_node st rule: search.induct)
  case (1 graph rows cols start end_node st)
  show ?case
  proof (cases "priority_queue st = []")
    case True
    with "1.prems"(3) show ?thesis by (simp add: search.simps)
  next
    case False
    note lb = loop_body_keys[OF "1.prems"(2)[unfolded "1.prems"(1)] False, of start end_node]
    show ?thesis
    proof (cases "loop_body graph rows cols start end_node st")
      case (Continue s)
      with lb[of s err] "1.prems"(1) have ks: "keys_defined rows cols s" by simp
      from "1.prems"(3) False Continue
      have "search graph rows cols start end_node s = Some (Inl err)"
        by (simp add: search.simps[of graph rows cols start end_node st])
      from "1.IH"[OF False Continue "1.prems"(1) ks this] show ?thesis .
    next
      case (Stop r)
      from "1.prems"(3) False Stop have "r = Some (Inl err)"
        by (simp add: search.simps[of graph rows cols start end_node st])
      with Stop lb[of st err] "1.prems"(1) show ?thesis by simp
    qed
  qed
qed

lemma keys_defined_initial:
  "keys_defined (int (length graph)) (int (length (hd graph))) (initial_state graph start)"
  by (simp add: keys_defined_def initial_state_def init_distances_apply)

lemma dijkstra_error:
  assumes "graph \<noteq> []" "dijkstra graph start end_node = Some (Inl err)"
  shows "err = IndexError \<and> short_row graph"
proof -
  from assms have "search graph (int (length graph)) (int (length (hd graph))) start end_node
      (initial_state graph start) = Some (Inl err)"
    by (simp add: dijkstra_nonempty)
  from search_error[OF refl keys_defined_initial this] show ?thesis
    by (simp add: short_row_def)
qed

subsection \<open>The claim and its correction\<close>

text \<open>
  C8 (as stated). A malformed grid, or a start or goal that is out of bounds or Blocked, is
  rejected before the search begins with a validation error. The function has no validation
  at all: here the start is a Blocked cell and the call returns a path from it.
\<close>

theorem no_validation_counterexample:
  "in_bounds [[0, 1]] (0, 1) \<and> \<not> traversable [[0, 1]] (0, 1) \<and>
   dijkstra [[0, 1]] (0, 1) (0, 0) = Some (Inr (Some [(0, 1), (0, 0)]))"
proof -
  have "dijkstra [[0, 1]] (0, 1) (0, 0) = Some (Inr (Some [(0, 1), (0, 0)]))"
    by code_simp
  then show ?thesis by (simp add: traversable_def in_bounds_def)
qed

text \<open>
  C8 (amended). \<open>dijkstra\<close> validates nothing. The empty grid is the only input that fails
  before the search begins, with the \<open>IndexError\<close> that \<open>len(graph[0])\<close> raises. For every
  non-empty grid, rectangular or not, and every start and goal, out of bounds or Blocked
  included, the call is the search loop run from the seeded initial state, with no check
  before it; in particular with the goal equal to the start it returns \<open>[start]\<close>. On a
  rectangular grid it never raises: it returns a path or \<open>None\<close>. Whenever it raises on a
  non-empty grid, the exception is \<open>IndexError\<close>, never \<open>KeyError\<close>, and some row of the grid
  is shorter than row 0. The grid \<open>[[0, 0], [0]]\<close> shows both outcomes on such a grid: from
  \<open>(0, 0)\<close> the goal \<open>(0, 1)\<close> is reached, the goal \<open>(1, 1)\<close> raises \<open>IndexError\<close>.
\<close>

theorem no_validation:
  "dijkstra [] start end_node = Some (Inl IndexError) \<and>
   (graph \<noteq> [] \<longrightarrow>
      dijkstra graph start end_node =
        search graph (int (length graph)) (int (length (hd graph))) start end_node
          (initial_state graph start) \<and>
      dijkstra graph start start = Some (Inr (Some [start])) \<and>
      (\<forall>err. dijkstra graph start end_node = Some (Inl err) \<longrightarrow>
         err = IndexError \<and> short_row graph)) \<and>
   (rectangular graph \<longrightarrow> (\<exists>res. dijkstra graph start end_node = Some (Inr res))) \<and>
   dijkstra [[0, 0], [0]] (0, 0) (0, 1) = Some (Inr (Some [(0, 0), (0, 1)])) \<and>
   dijkstra [[0, 0], [0]] (0, 0) (1, 1) = Some (Inl IndexError)"
proof -
  have a: "dijkstra [] start end_node = Some (Inl IndexError)" by (rule dijkstra_empty)
  have b: "dijkstra graph start end_node =
        search graph (int (length graph)) (int (length (hd graph))) start end_node
          (initial_state graph start)" if "graph \<noteq> []"
    using that by (rule dijkstra_nonempty)
  have c: "dijkstra graph start start = Some (Inr (Some [start]))" if "graph \<noteq> []"
    using that by (rule dijkstra_start_is_goal)
  have d: "err = IndexError \<and> short_row graph"
    if "graph \<noteq> []" "dijkstra graph start end_node = Some (Inl err)" for err
    using that by (rule dijkstra_error)
  have e: "rectangular graph \<longrightarrow> (\<exists>res. dijkstra graph start end_node = Some (Inr res))"
    using dijkstra_correct[of graph start end_node] by blast
  have f: "dijkstra [[0, 0], [0]] (0, 0) (0, 1) = Some (Inr (Some [(0, 0), (0, 1)]))"
    by code_simp
  have g: "dijkstra [[0, 0], [0]] (0, 0) (1, 1) = Some (Inl IndexError)"
    by code_simp
  from a b c d e f g show ?thesis by blast
qed

theorem no_validation_witness:
  "rectangular [[0, 1], [0, 0]] \<and> \<not> in_bounds [[0, 1], [0, 0]] (2, 0) \<and>
   \<not> traversable [[0, 1], [0, 0]] (0, 1) \<and>
   dijkstra [] (2, 0) (0, 1) = Some (Inl IndexError) \<and>
   (\<exists>res. dijkstra [[0, 1], [0, 0]] (2, 0) (0, 1) = Some (Inr res)) \<and>
   dijkstra [[0, 1], [0, 0]] (2, 0) (2, 0) = Some (Inr (Some [(2, 0)])) \<and>
   [[0, 0], [0]] \<noteq> ([] :: int list list) \<and>
   dijkstra [[0, 0], [0]] (0, 0) (1, 1) = Some (Inl IndexError) \<and>
   short_row [[0, 0], [0]]"
proof -
  let ?g = "[[0, 1], [0, 0]] :: int list list"
  let ?h = "[[0, 0], [0]] :: int list list"
  have r: "rectangular ?g" by (simp add: rectangular_def)
  have s: "\<not> in_bounds ?g (2, 0)" by (simp add: in_bounds_def)
  have e: "\<not> traversable ?g (0, 1)" by (simp add: traversable_def in_bounds_def)
  have n: "?g \<noteq> []" "?h \<noteq> []" by simp_all
  from no_validation[where start = "(2, 0)" and end_node = "(0, 1)" and graph = ?g]
    no_validation[where start = "(0, 0)" and end_node = "(1, 1)" and graph = ?h]
    r s e n show ?thesis by blast
qed

section \<open>A Blocked start\<close>

text \<open>
  C9. The traversability of the start cell itself is never tested. There are grids whose
  start is in bounds and Blocked on which \<open>dijkstra\<close> returns a path that begins at that
  Blocked cell, not an error and not \<open>None\<close>: a Blocked start next to a traversable corridor
  leading to the goal, and a Blocked start that is the goal.
\<close>

theorem blocked_start_not_checked:
  "in_bounds [[1, 0, 0]] (0, 0) \<and> \<not> traversable [[1, 0, 0]] (0, 0) \<and>
   dijkstra [[1, 0, 0]] (0, 0) (0, 2) = Some (Inr (Some [(0, 0), (0, 1), (0, 2)])) \<and>
   hd [(0, 0), (0, 1), (0 :: int, 2 :: int)] = (0, 0) \<and>
   in_bounds [[1]] (0, 0) \<and> \<not> traversable [[1]] (0, 0) \<and>
   dijkstra [[1]] (0, 0) (0, 0) = Some (Inr (Some [(0, 0)]))"
proof -
  have a: "dijkstra [[1, 0, 0]] (0, 0) (0, 2) = Some (Inr (Some [(0, 0), (0, 1), (0, 2)]))"
    by code_simp
  have b: "dijkstra [[1]] (0, 0) (0, 0) = Some (Inr (Some [(0, 0)]))"
    by code_simp
  from a b show ?thesis by (simp add: traversable_def in_bounds_def)
qed

section \<open>Determinism\<close>

text \<open>The entry popped is the least in Python's tuple order: by distance, then row, then column.\<close>

lemma heappop_lexicographic:
  assumes "heap \<noteq> []" "heappop heap = ((cd, r, c), rest)" "(d', r', c') \<in> set heap"
  shows "cd < d' \<or> (cd = d' \<and> (r < r' \<or> (r = r' \<and> c \<le> c')))"
proof -
  from assms(2) have "(cd, r, c) = Min (set heap)" by (simp add: heappop_eq)
  moreover have "Min (set heap) \<le> (d', r', c')" using assms(3) by simp
  ultimately have "(cd, r, c) \<le> (d', r', c')" by simp
  then show ?thesis by (auto simp: less_eq_prod_def)
qed







end
